theory Spec2Isabelle
  imports Main "HOL-Library.Word" "HOL-Library.Signed_Division"
begin

section \<open>The driver of Hundred\_Steppers.cpp\<close>

text \<open>
  The library drives a chain of 74HC595 shift registers, one motor per register. The
  class keeps one position counter per motor (\<open>step_table\<close>), the number of motors
  (\<open>nSteppers\<close>), the time of the last frame (\<open>last_step_time\<close>) and the minimum time
  between two frames (\<open>step_delay\<close>).

  The header \<open>Hundred_Steppers.h\<close> is not part of the sources at hand. What the code
  takes from it enters the model as follows:
  \<^item> \<open>stepType\<close>, the type of a position counter, is a parameter: a signed machine
    integer of any width, \<open>'a word\<close> read through \<open>sint\<close> (the code compares counters
    with \<open>0\<close> on both sides, and the specification calls them signed);
  \<^item> \<open>driver_mode\<close> and \<open>cmd_list\<close>, the cycle length and the phase table, are
    parameters: fields of the environment record below. \<open>driver_mode\<close> is a constant
    that the arithmetic of \<open>%\<close> takes as an \<open>int\<close> (a macro or a \<open>uint8_t\<close>);
  \<^item> \<open>arrayLen\<close> is modelled from the specification, where it is defined below;
  \<^item> \<open>last_step_time\<close> and \<open>step_delay\<close> have the type of Arduino's \<open>micros()\<close>,
    \<open>unsigned long\<close>, 32 bits wide.

  \<open>uint16_t\<close> is \<open>16 word\<close>, \<open>uint8_t\<close> and \<open>int8_t\<close> are \<open>8 word\<close>, read through
  \<open>unat\<close> and \<open>sint\<close>. The parameter \<open>steps_to_move\<close> of type \<open>int\<close> only ever moves
  towards zero, so it is an \<open>int\<close> of HOL whatever its width on the board.
\<close>

subsection \<open>Environment\<close>

text \<open>
  \<open>clock E k\<close> is the time in microseconds since power-up at which the driver reads
  \<open>micros()\<close> for the \<open>k\<close>-th time; \<open>micros()\<close> returns it as an \<open>unsigned long\<close>, so
  modulo \<open>2 ^ 32\<close>.
\<close>

record env =
  clock :: "nat \<Rightarrow> nat"
  driver_mode :: int
  cmd_list :: "8 word list"

definition micros :: "env \<Rightarrow> nat \<Rightarrow> 32 word" where
  "micros E k = word_of_nat (clock E k)"

text \<open>
  \<open>calloc\<close> either returns a block of zeroed cells or the null pointer; which of the
  two is the allocator's choice, an input of the model.
\<close>

definition calloc :: "bool \<Rightarrow> nat \<Rightarrow> 'a::len word list option" where
  "calloc heap_ok n = (if heap_ok then Some (replicate n 0) else None)"

subsection \<open>State\<close>

text \<open>
  What one motor contributes to a frame. The byte handed to \<open>fastShiftOut\<close> is
  \<open>cmd_list[step_table[j] % driver_mode]\<close>: two array reads. A read outside its array has
  no defined value in C++; the model records it as such instead of inventing a value.
\<close>

datatype shift_event =
    ShiftOut nat "8 word"
  | CounterOutOfBounds nat
  | PhaseOutOfBounds nat int

text \<open>
  The fields of the class that the operations below read or write, the number of
  \<open>micros()\<close> readings taken so far, and the frames shifted out so far (the observable
  output, one list of events per latch pulse). The pin numbers and port registers are
  left out: they are written at construction and only passed on to the GPIO layer.
\<close>

record 'c driver =
  nSteppers :: "16 word"
  nSteps :: "16 word"
  step_table :: "'c list"
  last_step_time :: "32 word"
  step_delay :: "32 word"
  micros_calls :: nat
  frames :: "shift_event list list"

subsection \<open>The frame transmitter: step\<close>

text \<open>
  The busy-wait \<open>while ((micros() - last_step_time) < step_delay) {;}\<close>. It returns the
  index of the reading that ended the loop, and does not return when no reading does.
\<close>

partial_function (option) wait_gate :: "env \<Rightarrow> 32 word \<Rightarrow> 32 word \<Rightarrow> nat \<Rightarrow> nat option" where
  "wait_gate E mark delay k =
     (if micros E k - mark < delay then wait_gate E mark delay (Suc k) else Some k)"

text \<open>
  \<open>step_table[j] % driver_mode\<close>: the counter is promoted to \<open>int\<close> and \<open>%\<close> truncates
  towards zero, so the remainder has the sign of the counter (\<open>smod\<close>).
\<close>

definition phase_index :: "env \<Rightarrow> 'a::len word \<Rightarrow> int" where
  "phase_index E c = sint c smod driver_mode E"

definition shift_motor :: "env \<Rightarrow> 'a::len word list \<Rightarrow> nat \<Rightarrow> shift_event" where
  "shift_motor E st j =
     (if j < length st then
        (let k = phase_index E (st ! j) in
         if 0 \<le> k \<and> k < int (length (cmd_list E)) then ShiftOut j (cmd_list E ! nat k)
         else PhaseOutOfBounds j k)
      else CounterOutOfBounds j)"

text \<open>
  The loop \<open>for (uint16_t i = 0; i <= length; i++)\<close> of \<open>step\<close>, with the 16-bit index
  as it is: \<open>i + 1\<close> wraps around.
\<close>

partial_function (option) shift_loop ::
  "env \<Rightarrow> 'a::len word list \<Rightarrow> 16 word \<Rightarrow> 16 word \<Rightarrow> shift_event list
     \<Rightarrow> shift_event list option" where
  "shift_loop E st len i out =
     (if i \<le> len then shift_loop E st len (i + 1) (out @ [shift_motor E st (unat (len - i))])
      else Some out)"

definition active_length :: "'c driver \<Rightarrow> 16 word \<Rightarrow> 16 word" where
  "active_length s len = (if len = 0 \<or> len > nSteppers s then nSteppers s else len)"

definition step :: "env \<Rightarrow> 16 word \<Rightarrow> 'a::len word driver \<Rightarrow> 'a word driver option" where
  "step E len s =
     Option.bind (wait_gate E (last_step_time s) (step_delay s) (micros_calls s)) (\<lambda>k.
       Option.bind (shift_loop E (step_table s) (active_length s len) 0 []) (\<lambda>frame.
         Some (s\<lparr>last_step_time := micros E (Suc k), micros_calls := k + 2,
                 frames := frames s @ [frame]\<rparr>)))"

definition frame_motors :: "shift_event list \<Rightarrow> nat list" where
  "frame_motors fr =
     map (\<lambda>e. case e of ShiftOut j b \<Rightarrow> j | CounterOutOfBounds j \<Rightarrow> j
                | PhaseOutOfBounds j k \<Rightarrow> j) fr"

subsection \<open>Configuration and lifecycle\<close>

text \<open>
  \<open>step_delay = 60L * 1000L * 1000L / nSteps / n\<close>: a division of positive \<open>long\<close>
  values, undefined when a divisor is zero.
\<close>

definition setSpeedRevPerMin :: "16 word \<Rightarrow> 'c driver \<Rightarrow> 'c driver option" where
  "setSpeedRevPerMin n s =
     (if nSteps s = 0 \<or> n = 0 then None
      else Some (s\<lparr>step_delay := word_of_nat (60 * 1000 * 1000 div unat (nSteps s) div unat n)\<rparr>))"

text \<open>
  The constructor. It does not look at what \<open>calloc\<close> returns: after a failed
  allocation \<open>step_table\<close> is the null pointer, a table without a single cell.
\<close>

definition Hundred_Steppers ::
  "env \<Rightarrow> bool \<Rightarrow> 16 word \<Rightarrow> 16 word \<Rightarrow> 'a::len word driver option" where
  "Hundred_Steppers E heap_ok nSteppers0 nSteps0 =
     setSpeedRevPerMin 60
       \<lparr>nSteppers = nSteppers0, nSteps = nSteps0,
        step_table = (case calloc heap_ok (unat nSteppers0) of Some t \<Rightarrow> t | None \<Rightarrow> []),
        last_step_time = micros E 0, step_delay = 0, micros_calls = 1, frames = []\<rparr>"

definition setStepperNum :: "bool \<Rightarrow> 16 word \<Rightarrow> 'a::len word driver \<Rightarrow> bool \<times> 'a word driver" where
  "setStepperNum heap_ok n s =
     (case calloc heap_ok (unat n) of
        Some tmp \<Rightarrow> (True, s\<lparr>step_table := tmp, nSteppers := n\<rparr>)
      | None \<Rightarrow> (False, s))"

definition getStepperNum :: "'c driver \<Rightarrow> 16 word" where
  "getStepperNum s = nSteppers s"

text \<open>
  Every cell of the table that the motor count promises is allocated. The constructor
  establishes this when its allocation succeeds, and every operation keeps it.
\<close>

definition allocated :: "'c driver \<Rightarrow> bool" where
  "allocated s \<longleftrightarrow> length (step_table s) = unat (nSteppers s)"

subsection \<open>The motion coordinator\<close>

text \<open>\<open>setStepperStep(uint16_t n, int steps_to_move)\<close>: one motor.\<close>

partial_function (option) setStepperStep_loop ::
  "env \<Rightarrow> 16 word \<Rightarrow> int \<Rightarrow> 'a::len word driver \<Rightarrow> 'a word driver option" where
  "setStepperStep_loop E n steps_to_move s =
     (if steps_to_move \<noteq> 0 then
        (if steps_to_move > 0 then
           Option.bind
             (step E n (s\<lparr>step_table := (step_table s)[unat n := step_table s ! unat n + 1]\<rparr>))
             (setStepperStep_loop E n (steps_to_move - 1))
         else
           Option.bind
             (step E n (s\<lparr>step_table := (step_table s)[unat n := step_table s ! unat n - 1]\<rparr>))
             (setStepperStep_loop E n (steps_to_move + 1)))
      else Some s)"

definition setStepperStep ::
  "env \<Rightarrow> 16 word \<Rightarrow> int \<Rightarrow> 'a::len word driver \<Rightarrow> 'a word driver option" where
  "setStepperStep E n steps_to_move s =
     (if n < nSteppers s then setStepperStep_loop E n steps_to_move s else Some s)"

text \<open>
  \<open>setStepperStep(int8_t * step_list)\<close>: a list of motors. The locals of one pass of
  the \<open>for\<close> loop are \<open>zero_num\<close>, \<open>max_changed\<close>, the caller's array and the table.
\<close>

type_synonym 'c pass = "16 word \<times> 16 word \<times> 8 word list \<times> 'c list"

definition list_body :: "16 word \<Rightarrow> 'a::len word pass \<Rightarrow> 'a word pass" where
  "list_body i = (\<lambda>(zero_num, max_changed, step_list, table).
     if 0 <s step_list ! unat i then
       (zero_num, i, step_list[unat i := step_list ! unat i - 1],
        table[unat i := table ! unat i + 1])
     else if step_list ! unat i <s 0 then
       (zero_num, i, step_list[unat i := step_list ! unat i + 1],
        table[unat i := table ! unat i - 1])
     else (zero_num + 1, max_changed, step_list, table))"

function list_for :: "16 word \<Rightarrow> 16 word \<Rightarrow> 'a::len word pass \<Rightarrow> 'a word pass" where
  "list_for len i v = (if i < len then list_for len (i + 1) (list_body i v) else v)"
  by pat_completeness auto
termination
proof (relation "measure (\<lambda>(len, i, v). unat len - unat i)")
  show "wf (measure (\<lambda>(len, i, v). unat len - unat i))" by simp
next
  fix len i :: "16 word" and v :: "'a word pass"
  assume "i < len"
  then have lt: "unat i < unat len" by (simp add: word_less_nat_alt)
  moreover have "unat len < 2 ^ 16" using unsigned_less [of len] by simp
  ultimately have "unat i + unat (1::16 word) < 2 ^ LENGTH(16)" by simp
  then have "unat (i + 1) = unat i + unat (1::16 word)" by (simp only: unat_add_lem)
  with lt show "((len, i + 1, list_body i v), (len, i, v)) \<in> measure (\<lambda>(len, i, v). unat len - unat i)"
    by simp
qed

text \<open>
  Modelled from the spec: \<open>arrayLen\<close>, a macro of the header, gives the number of entries
  of the delta sequence ("a sequence of signed targets, one per motor up to N"), as a
  \<open>uint16_t\<close>.
\<close>

definition arrayLen :: "8 word list \<Rightarrow> 16 word" where
  "arrayLen step_list = word_of_nat (length step_list)"

partial_function (option) setStepperStep_list_loop ::
  "env \<Rightarrow> 16 word \<Rightarrow> 16 word \<Rightarrow> 8 word list \<Rightarrow> 'a::len word driver
     \<Rightarrow> (8 word list \<times> 'a word driver) option" where
  "setStepperStep_list_loop E len zero_num step_list s =
     (if zero_num < len then
        (case list_for len 0 (zero_num, 0, step_list, step_table s) of
           (zero_num', max_changed, step_list', table') \<Rightarrow>
             Option.bind (step E max_changed (s\<lparr>step_table := table'\<rparr>))
               (setStepperStep_list_loop E len zero_num' step_list'))
      else Some (step_list, s))"

text \<open>
  \<open>list_length\<close> is the local \<open>length\<close>: the number of entries, cut down to the motor
  count. The result holds the caller's array as the call leaves it: the function works
  through the pointer it is given.
\<close>

definition list_length :: "'c driver \<Rightarrow> 8 word list \<Rightarrow> 16 word" where
  "list_length s step_list =
     (if arrayLen step_list > nSteppers s then nSteppers s else arrayLen step_list)"

definition setStepperStep_list ::
  "env \<Rightarrow> 8 word list \<Rightarrow> 'a::len word driver \<Rightarrow> (8 word list \<times> 'a word driver) option" where
  "setStepperStep_list E step_list s =
     setStepperStep_list_loop E (list_length s step_list) 0 step_list s"

text \<open>\<open>home()\<close>: the same loop on the counters themselves.\<close>

type_synonym 'c home_pass = "16 word \<times> 16 word \<times> 'c list"

definition home_body :: "16 word \<Rightarrow> 'a::len word home_pass \<Rightarrow> 'a word home_pass" where
  "home_body i = (\<lambda>(zero_num, max_changed, table).
     if 0 <s table ! unat i then (zero_num, i, table[unat i := table ! unat i - 1])
     else if table ! unat i <s 0 then (zero_num, i, table[unat i := table ! unat i + 1])
     else (zero_num + 1, max_changed, table))"

function home_for :: "16 word \<Rightarrow> 16 word \<Rightarrow> 'a::len word home_pass \<Rightarrow> 'a word home_pass" where
  "home_for len i v = (if i < len then home_for len (i + 1) (home_body i v) else v)"
  by pat_completeness auto
termination
proof (relation "measure (\<lambda>(len, i, v). unat len - unat i)")
  show "wf (measure (\<lambda>(len, i, v). unat len - unat i))" by simp
next
  fix len i :: "16 word" and v :: "'a word home_pass"
  assume "i < len"
  then have lt: "unat i < unat len" by (simp add: word_less_nat_alt)
  moreover have "unat len < 2 ^ 16" using unsigned_less [of len] by simp
  ultimately have "unat i + unat (1::16 word) < 2 ^ LENGTH(16)" by simp
  then have "unat (i + 1) = unat i + unat (1::16 word)" by (simp only: unat_add_lem)
  with lt show "((len, i + 1, home_body i v), (len, i, v)) \<in> measure (\<lambda>(len, i, v). unat len - unat i)"
    by simp
qed

partial_function (option) home_loop ::
  "env \<Rightarrow> 16 word \<Rightarrow> 'a::len word driver \<Rightarrow> 'a word driver option" where
  "home_loop E zero_num s =
     (if zero_num < nSteppers s then
        (case home_for (nSteppers s) 0 (zero_num, 0, step_table s) of
           (zero_num', max_changed, table') \<Rightarrow>
             Option.bind (step E max_changed (s\<lparr>step_table := table'\<rparr>)) (home_loop E zero_num'))
      else Some s)"

definition home :: "env \<Rightarrow> 'a::len word driver \<Rightarrow> 'a word driver option" where
  "home E s = home_loop E 0 s"

subsection \<open>A test bench\<close>

text \<open>
  A board for concrete runs: the clock advances by 5000 microseconds from one reading to
  the next, the phase table is the four-step wave sequence. \<open>fresh3\<close> is the driver the
  constructor builds on it for three motors of 200 steps with \<open>int8_t\<close> counters.
\<close>

definition bench :: env where
  "bench = \<lparr>clock = (\<lambda>k. 5000 * k), driver_mode = 4, cmd_list = [1, 2, 4, 8]\<rparr>"

definition fresh3 :: "8 word driver" where
  "fresh3 = \<lparr>nSteppers = 3, nSteps = 200, step_table = [0, 0, 0], last_step_time = 0,
             step_delay = 5000, micros_calls = 1, frames = []\<rparr>"



subsection \<open>Notions used by the properties\<close>

text \<open>
  The watermark \<open>last_step_time\<close> is the latest reading of \<open>micros()\<close>; the time of that
  reading is the time at which the gate let the last frame pass (or of the construction).
\<close>

definition stamped :: "env \<Rightarrow> 'c driver \<Rightarrow> bool" where
  "stamped E s \<longleftrightarrow> 0 < micros_calls s \<and> last_step_time s = micros E (micros_calls s - 1)"



text \<open>
  The header's table has an entry for every remainder \<open>0 .. driver_mode - 1\<close>.
\<close>

definition header_ok :: "env \<Rightarrow> bool" where
  "header_ok E \<longleftrightarrow> 0 < driver_mode E \<and> driver_mode E \<le> int (length (cmd_list E))"

text \<open>
  The clock keeps advancing: whatever the watermark, some later reading opens the gate.
\<close>

definition ticking :: "env \<Rightarrow> 32 word \<Rightarrow> bool" where
  "ticking E delay \<longleftrightarrow> (\<forall>mark k. \<exists>r. k \<le> r \<and> \<not> micros E r - mark < delay)"

text \<open>
  One step towards zero, and the largest magnitude of a list of deltas.
\<close>

definition toward_zero :: "'a::len word \<Rightarrow> 'a word" where
  "toward_zero d = (if 0 <s d then d - 1 else if d <s 0 then d + 1 else d)"

fun max_delta :: "8 word list \<Rightarrow> nat" where
  "max_delta [] = 0"
| "max_delta (d # ds) = max (nat \<bar>sint d\<bar>) (max_delta ds)"

section \<open>Auxiliary facts\<close>

subsection \<open>Machine arithmetic\<close>

lemma unat_succ_less: "i < (len::16 word) \<Longrightarrow> unat (i + 1) = Suc (unat i)"
proof -
  assume "i < len"
  then have "unat i < unat len" by (simp add: word_less_nat_alt)
  moreover have "unat len < 2 ^ 16" using unsigned_less [of len] by simp
  ultimately have "unat i + unat (1::16 word) < 2 ^ LENGTH(16)" by simp
  then have "unat (i + 1) = unat i + unat (1::16 word)" by (simp only: unat_add_lem)
  then show ?thesis by simp
qed

lemma unat_succ_neq: "(len::16 word) \<noteq> 65535 \<Longrightarrow> unat (len + 1) = Suc (unat len)"
proof -
  assume "len \<noteq> 65535"
  moreover have "len = word_of_nat (unat len)" by simp
  ultimately have "unat len \<noteq> 65535" by (metis of_nat_numeral)
  moreover have "unat len < 2 ^ 16" using unsigned_less [of len] by simp
  ultimately have "unat len + unat (1::16 word) < 2 ^ LENGTH(16)" by simp
  then have "unat (len + 1) = unat len + unat (1::16 word)" by (simp only: unat_add_lem)
  then show ?thesis by simp
qed

lemma sint_pred: "0 <s (d :: 'a::len word) \<Longrightarrow> sint (d - 1) = sint d - 1"
proof -
  assume "0 <s d"
  then have "0 < sint d" by (simp add: word_sless_alt)
  moreover have "sint d < 2 ^ (LENGTH('a) - 1)" by (rule sint_lt)
  ultimately have "signed_take_bit (LENGTH('a) - 1) (sint d - 1) = sint d - 1"
    by (intro signed_take_bit_int_eq_self) simp_all
  moreover have "sint (d - 1) = signed_take_bit (LENGTH('a) - 1) (sint d - 1)"
    using sint_word_pred [of d] by (simp add: word_pred_m1)
  ultimately show ?thesis by simp
qed

lemma sint_succ: "(d :: 'a::len word) <s 0 \<Longrightarrow> sint (d + 1) = sint d + 1"
proof -
  assume "d <s 0"
  then have "sint d < 0" by (simp add: word_sless_alt)
  moreover have "- (2 ^ (LENGTH('a) - 1)) \<le> sint d" by (rule sint_ge)
  ultimately have "signed_take_bit (LENGTH('a) - 1) (sint d + 1) = sint d + 1"
    by (intro signed_take_bit_int_eq_self) simp_all
  moreover have "sint (d + 1) = signed_take_bit (LENGTH('a) - 1) (sint d + 1)"
    using sint_word_succ [of d] by (simp add: word_succ_p1)
  ultimately show ?thesis by simp
qed

lemma zero_iff_not_sless: "(\<not> 0 <s d \<and> \<not> d <s 0) \<longleftrightarrow> d = 0"
proof -
  have "d = 0 \<longleftrightarrow> sint d = 0" by (simp add: signed_eq_0_iff)
  then show ?thesis by (auto simp: word_sless_alt)
qed

lemma toward_zero_0 [simp]: "toward_zero 0 = 0"
  by (simp add: toward_zero_def)

lemma toward_zero_abs:
  "nat \<bar>sint (toward_zero (d :: 'a::len word))\<bar> = nat \<bar>sint d\<bar> - 1"
proof -
  consider "0 <s d" | "d <s 0" | "d = 0" using zero_iff_not_sless [of d] by blast
  then show ?thesis
  proof cases
    case 1
    then have "toward_zero d = d - 1" by (simp add: toward_zero_def)
    with 1 sint_pred [OF 1] show ?thesis by (simp add: word_sless_alt)
  next
    case 2
    then have "\<not> 0 <s d" by (simp add: word_sless_alt)
    with 2 have "toward_zero d = d + 1" by (simp add: toward_zero_def)
    with 2 sint_succ [OF 2] show ?thesis by (simp add: word_sless_alt)
  next
    case 3
    then show ?thesis by simp
  qed
qed

lemma sgn_steps:
  fixes a a1 x :: int
  assumes "a1 = sgn a * int (nat \<bar>a\<bar> - 1)" and "x = sgn a1 * int (nat \<bar>a1\<bar> - k)"
  shows "x = sgn a * int (nat \<bar>a\<bar> - Suc k)"
proof -
  consider "a = 0" | "a = 1" | "a = - 1" | "1 < a" | "a < - 1" by linarith
  then show ?thesis
  proof cases
    case 1
    with assms show ?thesis by simp
  next
    case 2
    with assms show ?thesis by simp
  next
    case 3
    with assms show ?thesis by simp
  next
    case 4
    then have "sgn a = 1" "nat \<bar>a\<bar> = nat a" by simp_all
    with assms(1) 4 have a1: "a1 = a - 1" by simp
    with 4 have "sgn a1 = 1" "nat \<bar>a1\<bar> = nat a - 1" by simp_all
    with assms(2) \<open>sgn a = 1\<close> \<open>nat \<bar>a\<bar> = nat a\<close> show ?thesis by simp
  next
    case 5
    then have s: "sgn a = - 1" "nat \<bar>a\<bar> = nat (- a)" by simp_all
    with assms(1) 5 have a1: "a1 = a + 1" by simp
    with 5 have "sgn a1 = - 1" "nat \<bar>a1\<bar> = nat (- a) - 1" by simp_all
    with assms(2) s show ?thesis by simp
  qed
qed

lemma toward_zero_sint:
  "sint (toward_zero (d :: 'a::len word)) = sgn (sint d) * int (nat \<bar>sint d\<bar> - 1)"
proof -
  consider "0 <s d" | "d <s 0" | "d = 0" using zero_iff_not_sless [of d] by blast
  then show ?thesis
  proof cases
    case 1
    then have "toward_zero d = d - 1" by (simp add: toward_zero_def)
    moreover from 1 have "0 < sint d" by (simp add: word_sless_alt)
    ultimately show ?thesis using sint_pred [OF 1] by simp
  next
    case 2
    then have n: "sint d < 0" by (simp add: word_sless_alt)
    then have "\<not> 0 <s d" by (simp add: word_sless_alt)
    with 2 have "toward_zero d = d + 1" by (simp add: toward_zero_def)
    with n show ?thesis using sint_succ [OF 2] by simp
  next
    case 3
    then show ?thesis by simp
  qed
qed

lemma scast_pred:
  assumes "0 <s (d :: 8 word)"
  shows "(scast (d - 1) :: 'a::len word) = scast d - 1"
proof -
  have "(scast (d - 1) :: 'a word) = word_of_int (sint (d - 1))" by (rule scast_eq)
  also have "\<dots> = word_of_int (sint d - 1)" by (simp only: sint_pred [OF assms])
  also have "\<dots> = word_of_int (sint d) - 1" by (simp only: of_int_diff of_int_1)
  also have "\<dots> = scast d - 1" by (simp only: scast_eq)
  finally show ?thesis .
qed

lemma scast_succ:
  assumes "(d :: 8 word) <s 0"
  shows "(scast (d + 1) :: 'a::len word) = scast d + 1"
proof -
  have "(scast (d + 1) :: 'a word) = word_of_int (sint (d + 1))" by (rule scast_eq)
  also have "\<dots> = word_of_int (sint d + 1)" by (simp only: sint_succ [OF assms])
  also have "\<dots> = word_of_int (sint d) + 1" by (simp only: of_int_add of_int_1)
  also have "\<dots> = scast d + 1" by (simp only: scast_eq)
  finally show ?thesis .
qed

lemma zero_num_wraps:
  fixes zn len :: "16 word"
  assumes "zn < len" and "zn + len < len"
  shows "unat (zn + len) < unat zn"
proof -
  have a: "unat zn < 2 ^ 16" "unat len < 2 ^ 16"
    using unsigned_less [of zn] unsigned_less [of len] by simp_all
  have e: "unat (zn + len) = (unat zn + unat len) mod 2 ^ 16"
    by (simp add: unat_word_ariths)
  from assms(2) have lt: "(unat zn + unat len) mod 2 ^ 16 < unat len"
    by (simp add: word_less_nat_alt e)
  have ge: "2 ^ 16 \<le> unat zn + unat len"
  proof (rule ccontr)
    assume "\<not> 2 ^ 16 \<le> unat zn + unat len"
    then have "(unat zn + unat len) mod 2 ^ 16 = unat zn + unat len" by simp
    with lt show False by simp
  qed
  then have "(unat zn + unat len) mod 2 ^ 16 = unat zn + unat len - 2 ^ 16"
    using a by (simp add: mod_if)
  with a e ge show ?thesis by simp
qed

lemma nat_abs_sint_pos: "(d :: 'a::len word) \<noteq> 0 \<Longrightarrow> 0 < nat \<bar>sint d\<bar>"
  by (simp add: signed_eq_0_iff)

subsection \<open>The busy-wait and the frame loop\<close>


lemma wait_gate_returns:
  "k \<le> r \<Longrightarrow> \<not> micros E r - mark < delay \<Longrightarrow> \<exists>r'. wait_gate E mark delay k = Some r' \<and> r' \<le> r"
proof (induction "r - k" arbitrary: k)
  case 0
  then have "k = r" by simp
  with 0(3) show ?case by (subst wait_gate.simps) simp
next
  case (Suc d)
  show ?case
  proof (cases "micros E k - mark < delay")
    case True
    have "Suc k \<le> r" using Suc.hyps(2) by simp
    moreover have "d = r - Suc k" using Suc.hyps(2) by simp
    ultimately obtain r' where "wait_gate E mark delay (Suc k) = Some r'" "r' \<le> r"
      using Suc.hyps(1) Suc.prems(2) by blast
    with True show ?thesis by (subst wait_gate.simps) simp
  next
    case False
    then show ?thesis using Suc.prems(1) by (subst wait_gate.simps) simp
  qed
qed



lemma step_SomeD:
  assumes "step E len s = Some s'"
  obtains k frame where "wait_gate E (last_step_time s) (step_delay s) (micros_calls s) = Some k"
    and "shift_loop E (step_table s) (active_length s len) 0 [] = Some frame"
    and "s' = s\<lparr>last_step_time := micros E (Suc k), micros_calls := k + 2,
                 frames := frames s @ [frame]\<rparr>"
  using assms unfolding step_def by (auto split: Option.bind_splits)

lemma shift_loop_hang: "shift_loop E st 65535 i out = None"
proof (rule ccontr)
  assume "shift_loop E st 65535 i out \<noteq> None"
  then obtain y where y: "shift_loop E st 65535 i out = Some y" by auto
  have "(65535 :: 16 word) \<noteq> 65535"
  proof (rule shift_loop.raw_induct [where P = "\<lambda>E st len i out y. len \<noteq> 65535", OF _ y])
    fix f :: "env \<Rightarrow> 'a word list \<Rightarrow> 16 word \<Rightarrow> 16 word \<Rightarrow> shift_event list \<Rightarrow> shift_event list option"
    fix E st len i out y
    assume IH: "\<And>E st len i out y. f E st len i out = Some y \<Longrightarrow> len \<noteq> 65535"
    assume eq: "(if i \<le> len then f E st len (i + 1) (out @ [shift_motor E st (unat (len - i))])
                 else Some out) = Some y"
    show "len \<noteq> 65535"
    proof (cases "i \<le> len")
      case True
      with eq IH show ?thesis by simp
    next
      case False
      then have "unat len < unat i" by (simp add: word_le_nat_alt)
      moreover have "unat i < 2 ^ 16" using unsigned_less [of i] by simp
      ultimately show ?thesis by auto
    qed
  qed
  then show False by simp
qed

lemma shift_loop_Some:
  assumes "len \<noteq> 65535" and "i \<le> len"
  shows "shift_loop E st len i out =
           Some (out @ map (shift_motor E st) (rev [0..<Suc (unat len - unat i)]))"
  using assms(2)
proof (induction "unat len - unat i" arbitrary: i out)
  case 0
  then have "unat i = unat len" by (simp add: word_le_nat_alt)
  then have i: "i = len" by (rule unsigned_word_eqI)
  have "\<not> len + 1 \<le> len" using unat_succ_neq [OF assms(1)] by (simp add: word_le_nat_alt)
  then show ?case
    by (subst shift_loop.simps, simp add: i, subst shift_loop.simps, simp)
next
  case (Suc d)
  then have lt: "i < len" by (simp add: word_less_nat_alt)
  then have u: "unat (i + 1) = Suc (unat i)" by (rule unat_succ_less)
  with lt have le: "i + 1 \<le> len" by (simp add: word_le_nat_alt word_less_nat_alt)
  have d: "d = unat len - unat (i + 1)" using Suc.hyps(2) u by simp
  have sub: "unat (len - i) = unat len - unat i" using Suc.prems by (simp add: unat_sub)
  have "shift_loop E st len i out
          = shift_loop E st len (i + 1) (out @ [shift_motor E st (unat (len - i))])"
    using Suc.prems by (subst shift_loop.simps) simp
  also have "\<dots> = Some ((out @ [shift_motor E st (unat (len - i))]) @
                      map (shift_motor E st) (rev [0..<Suc (unat len - unat (i + 1))]))"
    by (rule Suc.hyps(1) [OF d le])
  also have "Suc (unat len - unat (i + 1)) = unat len - unat i" using u lt
    by (simp add: word_less_nat_alt)
  finally show ?case using Suc.hyps(2) sub by simp
qed

lemma active_length_idem: "active_length s (active_length s len) = active_length s len"
  by (simp add: active_length_def)

lemma active_length_neq:
  assumes "nSteppers s \<noteq> 65535"
  shows "active_length s len \<noteq> 65535"
proof (cases "len = 0 \<or> nSteppers s < len")
  case True
  with assms show ?thesis by (simp add: active_length_def)
next
  case False
  then have al: "active_length s len = len" and le: "len \<le> nSteppers s"
    by (auto simp: active_length_def)
  show ?thesis
  proof
    assume "active_length s len = 65535"
    with al le have "65535 \<le> unat (nSteppers s)" by (simp add: word_le_nat_alt)
    moreover have "unat (nSteppers s) < 2 ^ 16" using unsigned_less [of "nSteppers s"] by simp
    ultimately have "unat (nSteppers s) = 65535" by simp
    moreover have "nSteppers s = word_of_nat (unat (nSteppers s))" by simp
    ultimately have "nSteppers s = word_of_nat 65535" by simp
    with assms show False by simp
  qed
qed

lemma step_frames:
  assumes "step E len s = Some s'"
  shows "frames s' = frames s @
           [map (shift_motor E (step_table s)) (rev [0..<Suc (unat (active_length s len))])]"
    and "step_table s' = step_table s" and "nSteppers s' = nSteppers s"
    and "step_delay s' = step_delay s" and "nSteps s' = nSteps s"
proof -
  from assms obtain k frame
    where sl: "shift_loop E (step_table s) (active_length s len) 0 [] = Some frame"
      and s': "s' = s\<lparr>last_step_time := micros E (Suc k), micros_calls := k + 2,
                 frames := frames s @ [frame]\<rparr>"
    by (rule step_SomeD)
  from sl have "active_length s len \<noteq> 65535" using shift_loop_hang [of E "step_table s" 0 "[]"] by auto
  from shift_loop_Some [OF this, of 0 E "step_table s" "[]"] sl
  have "frame = map (shift_motor E (step_table s)) (rev [0..<Suc (unat (active_length s len))])"
    by simp
  with s' show "frames s' = frames s @
           [map (shift_motor E (step_table s)) (rev [0..<Suc (unat (active_length s len))])]"
    by simp
  from s' show "step_table s' = step_table s" "nSteppers s' = nSteppers s"
    "step_delay s' = step_delay s" "nSteps s' = nSteps s" by simp_all
qed


lemma shift_motor_byte:
  assumes "header_ok E" and "j < length st" and "0 \<le> sint (st ! j)"
  shows "shift_motor E st j = ShiftOut j (cmd_list E ! nat (sint (st ! j) mod driver_mode E))"
proof -
  from assms(1) have dm: "0 < driver_mode E" "driver_mode E \<le> int (length (cmd_list E))"
    by (simp_all add: header_ok_def)
  from assms(3) dm(1) have "sint (st ! j) smod driver_mode E = sint (st ! j) mod driver_mode E"
    by (cases "sint (st ! j) = 0") (simp_all add: smod_int_alt_def)
  moreover have "0 \<le> sint (st ! j) mod driver_mode E" "sint (st ! j) mod driver_mode E < driver_mode E"
    using dm(1) by simp_all
  ultimately show ?thesis using assms(2) dm(2) by (simp add: shift_motor_def phase_index_def)
qed

lemma shift_motor_negative:
  assumes "j < length st" and "sint (st ! j) < 0" and "0 < driver_mode E"
    and "\<not> driver_mode E dvd sint (st ! j)"
  shows "\<exists>k < 0. shift_motor E st j = PhaseOutOfBounds j k"
proof -
  let ?c = "sint (st ! j)"
  from assms(4) have "\<not> driver_mode E dvd \<bar>?c\<bar>" by simp
  then have "\<bar>?c\<bar> mod driver_mode E \<noteq> 0" by (simp add: dvd_eq_mod_eq_0)
  moreover have "0 \<le> \<bar>?c\<bar> mod driver_mode E" using assms(3) by simp
  ultimately have "0 < \<bar>?c\<bar> mod driver_mode E" by linarith
  moreover have "?c smod driver_mode E = - (\<bar>?c\<bar> mod driver_mode E)"
    using assms(2,3) by (simp add: smod_int_alt_def)
  ultimately have "phase_index E (st ! j) < 0" by (simp add: phase_index_def)
  with assms(1) show ?thesis by (auto simp: shift_motor_def Let_def)
qed

lemma shift_motor_allocated:
  "j < length st \<Longrightarrow> shift_motor E st j \<noteq> CounterOutOfBounds i"
  by (simp add: shift_motor_def Let_def)

lemma frame_motors_shift: "frame_motors (map (shift_motor E st) js) = js"
  by (induction js) (simp_all add: frame_motors_def shift_motor_def Let_def)

subsection \<open>The watermark\<close>

lemma stamped_table [simp]: "stamped E (s\<lparr>step_table := t\<rparr>) = stamped E s"
  by (simp add: stamped_def)

lemma stamped_constructor:
  "Hundred_Steppers E heap_ok n m = Some s \<Longrightarrow> stamped E s"
  by (auto simp: Hundred_Steppers_def setSpeedRevPerMin_def stamped_def split: if_splits)

lemma stamped_setStepperNum: "stamped E (snd (setStepperNum heap_ok n s)) = stamped E s"
  by (simp add: setStepperNum_def calloc_def stamped_def)

lemma stamped_setSpeedRevPerMin: "setSpeedRevPerMin n s = Some s' \<Longrightarrow> stamped E s' = stamped E s"
  by (auto simp: setSpeedRevPerMin_def stamped_def split: if_splits)

subsection \<open>Moving one motor\<close>

lemma step_hangs:
  assumes "nSteppers s = 65535" and "len = 0 \<or> len = 65535"
  shows "step E len s = None"
proof -
  from assms have "active_length s len = 65535" by (auto simp: active_length_def)
  then show ?thesis
    by (cases "wait_gate E (last_step_time s) (step_delay s) (micros_calls s)")
       (simp_all add: step_def shift_loop_hang)
qed

lemma setStepperStep_hangs:
  assumes "nSteppers s = 65535" and "S \<noteq> 0"
  shows "setStepperStep E 0 S s = None"
proof -
  have "step E 0 (s\<lparr>step_table := t\<rparr>) = None" for t
    using assms(1) by (intro step_hangs) simp_all
  then show ?thesis using assms
    by (subst setStepperStep_def, simp, subst setStepperStep_loop.simps, simp)
qed

lemma bench_ticking: "ticking bench 5000"
  unfolding ticking_def
proof (intro allI)
  fix mark :: "32 word" and k :: nat
  show "\<exists>r. k \<le> r \<and> \<not> micros bench r - mark < 5000"
  proof (cases "micros bench k - mark < 5000")
    case False
    then show ?thesis by blast
  next
    case True
    let ?x = "micros bench k - mark"
    have "micros bench (Suc k) = micros bench k + 5000" by (simp add: micros_def bench_def)
    then have eq: "micros bench (Suc k) - mark = ?x + 5000" by (simp add: algebra_simps)
    from True have "unat ?x < 5000" by (simp add: word_less_nat_alt)
    then have "unat ?x + unat (5000 :: 32 word) < 2 ^ LENGTH(32)" by simp
    then have "unat (?x + 5000) = unat ?x + unat (5000 :: 32 word)" by (simp only: unat_add_lem)
    then have "\<not> ?x + 5000 < 5000" by (simp add: word_less_nat_alt)
    then have "\<not> micros bench (Suc k) - mark < 5000" unfolding eq .
    then show ?thesis by (intro exI [of _ "Suc k"]) simp
  qed
qed

lemma step_returns:
  assumes "ticking E (step_delay s)" and "active_length s len \<noteq> 65535"
  shows "\<exists>s'. step E len s = Some s'"
proof -
  from assms(1) obtain r where "micros_calls s \<le> r" "\<not> micros E r - last_step_time s < step_delay s"
    unfolding ticking_def by blast
  from wait_gate_returns [OF this] obtain k
    where "wait_gate E (last_step_time s) (step_delay s) (micros_calls s) = Some k" by blast
  moreover have "shift_loop E (step_table s) (active_length s len) 0 [] =
      Some ([] @ map (shift_motor E (step_table s)) (rev [0..<Suc (unat (active_length s len) - unat (0::16 word))]))"
    by (rule shift_loop_Some [OF assms(2)]) simp
  ultimately show ?thesis by (simp add: step_def)
qed

lemma setStepperStep_loop_moves:
  fixes s :: "'a::len word driver"
  assumes "nSteppers s \<noteq> 65535" and "n < nSteppers s" and "allocated s"
    and "ticking E (step_delay s)"
  shows "\<exists>s'. setStepperStep_loop E n S s = Some s' \<and>
           step_table s' = (step_table s)[unat n := step_table s ! unat n + word_of_int S] \<and>
           nSteppers s' = nSteppers s \<and>
           length (frames s') = length (frames s) + nat \<bar>S\<bar>"
  using assms
proof (induction "nat \<bar>S\<bar>" arbitrary: S s)
  case 0
  then have "S = 0" by simp
  then show ?case by (subst setStepperStep_loop.simps) simp
next
  case (Suc m)
  from Suc.prems(2,3) have n: "unat n < length (step_table s)"
    by (simp add: allocated_def word_less_nat_alt)
  have al: "active_length s1 n \<noteq> 65535" if "nSteppers s1 = nSteppers s" for s1 :: "'a word driver"
  proof (cases "n = 0")
    case True
    with that Suc.prems(1) show ?thesis by (simp add: active_length_def)
  next
    case False
    with that Suc.prems(2) have "active_length s1 n = n" by (auto simp: active_length_def)
    moreover have "n \<noteq> 65535"
    proof
      assume "n = 65535"
      with Suc.prems(2) have "65535 < unat (nSteppers s)" by (simp add: word_less_nat_alt)
      moreover have "unat (nSteppers s) < 2 ^ 16" using unsigned_less [of "nSteppers s"] by simp
      ultimately show False by simp
    qed
    ultimately show ?thesis by simp
  qed
  define d :: int where "d = (if 0 < S then 1 else - 1)"
  define s1 where "s1 = s\<lparr>step_table := (step_table s)[unat n := step_table s ! unat n + word_of_int d]\<rparr>"
  have S0: "S \<noteq> 0" using Suc.hyps(2) by auto
  have s1: "nSteppers s1 = nSteppers s" "step_delay s1 = step_delay s" "frames s1 = frames s"
    by (simp_all add: s1_def)
  from step_returns [of E s1 n] Suc.prems(4) al [OF s1(1)] s1
  obtain s2 where run: "step E n s1 = Some s2" by auto
  have unfold: "setStepperStep_loop E n S s = setStepperStep_loop E n (S - d) s2"
    using S0 run by (subst setStepperStep_loop.simps) (auto simp: d_def s1_def)
  from step_frames [OF run] s1
  have s2: "step_table s2 = step_table s1" "nSteppers s2 = nSteppers s" "step_delay s2 = step_delay s"
    "length (frames s2) = Suc (length (frames s))" by simp_all
  have m: "m = nat \<bar>S - d\<bar>" using Suc.hyps(2) S0 by (auto simp: d_def)
  have "allocated s2" using Suc.prems(3) s2 by (simp add: allocated_def s1_def)
  from Suc.hyps(1) [OF m _ _ this, of ] s2 Suc.prems
  obtain s' where r: "setStepperStep_loop E n (S - d) s2 = Some s'"
    "step_table s' = (step_table s2)[unat n := step_table s2 ! unat n + word_of_int (S - d)]"
    "nSteppers s' = nSteppers s2" "length (frames s') = length (frames s2) + nat \<bar>S - d\<bar>"
    by auto
  have "step_table s' = (step_table s)[unat n := step_table s ! unat n + word_of_int S]"
    using r(2) n by (simp add: s2 s1_def)
  moreover have "length (frames s') = length (frames s) + nat \<bar>S\<bar>"
    using r(4) s2(4) m Suc.hyps(2) by simp
  ultimately show ?case using unfold r(1,3) s2(2) by simp
qed

lemma setStepperStep_moves:
  fixes s :: "'a::len word driver"
  assumes "nSteppers s \<noteq> 65535" and "n < nSteppers s" and "allocated s"
    and "ticking E (step_delay s)"
  shows "\<exists>s'. setStepperStep E n S s = Some s' \<and>
           length (step_table s') = length (step_table s) \<and>
           step_table s' ! unat n = step_table s ! unat n + word_of_int S \<and>
           (\<forall>j. j \<noteq> unat n \<longrightarrow> step_table s' ! j = step_table s ! j) \<and>
           length (frames s') = length (frames s) + nat \<bar>S\<bar>"
proof -
  from setStepperStep_loop_moves [OF assms, of S] obtain s'
    where r: "setStepperStep_loop E n S s = Some s'"
      "step_table s' = (step_table s)[unat n := step_table s ! unat n + word_of_int S]"
      "length (frames s') = length (frames s) + nat \<bar>S\<bar>"
    by blast
  from assms(2,3) have "unat n < length (step_table s)"
    by (simp add: allocated_def word_less_nat_alt)
  with r assms(2) show ?thesis by (simp add: setStepperStep_def)
qed

subsection \<open>One pass over the list of deltas\<close>

lemma list_body_deltas:
  "list_body i (zn, mc, sl, st) = (zn', mc', sl', st') \<Longrightarrow>
     sl' = sl[unat i := toward_zero (sl ! unat i)]"
  by (auto simp: list_body_def toward_zero_def split: if_splits)

lemma list_for_deltas:
  "list_for len i (zn, mc, sl, st) = (zn', mc', sl', st') \<Longrightarrow>
     length sl' = length sl \<and>
     (\<forall>j < length sl. sl' ! j =
        (if unat i \<le> j \<and> j < unat len then toward_zero (sl ! j) else sl ! j))"
proof (induction len i "(zn, mc, sl, st)" arbitrary: zn mc sl st rule: list_for.induct)
  case (1 len i)
  show ?case
  proof (cases "i < len")
    case False
    with "1.prems" have "sl' = sl" by simp
    moreover from False have "unat len \<le> unat i" by (simp add: word_less_nat_alt)
    ultimately show ?thesis by auto
  next
    case True
    obtain zn1 mc1 sl1 st1 where b: "list_body i (zn, mc, sl, st) = (zn1, mc1, sl1, st1)"
      by (cases "list_body i (zn, mc, sl, st)") auto
    from list_body_deltas [OF b] have sl1: "sl1 = sl[unat i := toward_zero (sl ! unat i)]" .
    from "1.prems" True b have r: "list_for len (i + 1) (zn1, mc1, sl1, st1) = (zn', mc', sl', st')"
      by simp
    from "1.hyps" [OF True b r]
    have len: "length sl' = length sl1"
      and pt: "\<forall>j < length sl1. sl' ! j =
        (if unat (i + 1) \<le> j \<and> j < unat len then toward_zero (sl1 ! j) else sl1 ! j)"
      by simp_all
    have u: "unat (i + 1) = Suc (unat i)" by (rule unat_succ_less [OF True])
    have il: "unat i < unat len" using True by (simp add: word_less_nat_alt)
    have "sl' ! j = (if unat i \<le> j \<and> j < unat len then toward_zero (sl ! j) else sl ! j)"
      if "j < length sl" for j
    proof (cases "j = unat i")
      case True
      with pt that u il show ?thesis by (simp add: sl1)
    next
      case False
      with pt that u show ?thesis by (auto simp: sl1)
    qed
    with len show ?thesis by (simp add: sl1)
  qed
qed

lemma list_for_zeros:
  assumes "\<forall>j. unat i \<le> j \<and> j < unat len \<longrightarrow> j < length sl \<and> sl ! j = 0" and "i \<le> len"
  shows "list_for len i (zn, mc, sl, st) = (zn + (len - i), mc, sl, st)"
  using assms
proof (induction len i "(zn, mc, sl, st)" arbitrary: zn rule: list_for.induct)
  case (1 len i)
  show ?case
  proof (cases "i < len")
    case False
    with "1.prems"(2) have "i = len" by simp
    then show ?thesis by simp
  next
    case True
    then have il: "unat i < unat len" by (simp add: word_less_nat_alt)
    with "1.prems"(1) have z: "sl ! unat i = 0" by simp
    then have b: "list_body i (zn, mc, sl, st) = (zn + 1, mc, sl, st)"
      by (simp add: list_body_def)
    have u: "unat (i + 1) = Suc (unat i)" by (rule unat_succ_less [OF True])
    have le: "i + 1 \<le> len" using u il by (simp add: word_le_nat_alt)
    have "\<forall>j. unat (i + 1) \<le> j \<and> j < unat len \<longrightarrow> j < length sl \<and> sl ! j = 0"
      using "1.prems"(1) u by simp
    from "1.hyps" [OF True b this le]
    have "list_for len (i + 1) (zn + 1, mc, sl, st) = (zn + 1 + (len - (i + 1)), mc, sl, st)" .
    with True b show ?thesis by simp
  qed
qed

lemma list_body_zero_num:
  "list_body i (zn, mc, sl, st) = (zn', mc', sl', st') \<Longrightarrow>
     zn' = zn + (if sl ! unat i = 0 then 1 else 0)"
  using zero_iff_not_sless [of "sl ! unat i"]
  by (auto simp: list_body_def split: if_splits)

lemma list_for_zero_num:
  "list_for len i (zn, mc, sl, st) = (zn', mc', sl', st') \<Longrightarrow>
     zn' = zn + word_of_nat (\<Sum>j = unat i..<unat len. if sl ! j = 0 then 1 else 0)"
proof (induction len i "(zn, mc, sl, st)" arbitrary: zn mc sl st rule: list_for.induct)
  case (1 len i)
  show ?case
  proof (cases "i < len")
    case False
    then have "unat len \<le> unat i" by (simp add: word_less_nat_alt)
    with False "1.prems" show ?thesis by simp
  next
    case True
    then have il: "unat i < unat len" by (simp add: word_less_nat_alt)
    obtain zn1 mc1 sl1 st1 where b: "list_body i (zn, mc, sl, st) = (zn1, mc1, sl1, st1)"
      by (cases "list_body i (zn, mc, sl, st)") auto
    from list_body_deltas [OF b] have sl1: "sl1 = sl[unat i := toward_zero (sl ! unat i)]" .
    from list_body_zero_num [OF b] have zn1: "zn1 = zn + (if sl ! unat i = 0 then 1 else 0)" .
    from "1.prems" True b have r: "list_for len (i + 1) (zn1, mc1, sl1, st1) = (zn', mc', sl', st')"
      by simp
    have u: "unat (i + 1) = Suc (unat i)" by (rule unat_succ_less [OF True])
    from "1.hyps" [OF True b r]
    have "zn' = zn1 + word_of_nat (\<Sum>j = Suc (unat i)..<unat len. if sl1 ! j = 0 then 1 else 0)"
      by (simp only: u)
    also have "(\<Sum>j = Suc (unat i)..<unat len. if sl1 ! j = 0 then 1 else 0) =
               (\<Sum>j = Suc (unat i)..<unat len. if sl ! j = 0 then 1 else (0::nat))"
      by (rule sum.cong) (simp_all add: sl1)
    finally have "zn' = zn + word_of_nat ((if sl ! unat i = 0 then 1 else 0) +
                    (\<Sum>j = Suc (unat i)..<unat len. if sl ! j = 0 then 1 else 0))"
      by (simp add: zn1)
    also have "(if sl ! unat i = 0 then 1 else 0) +
                    (\<Sum>j = Suc (unat i)..<unat len. if sl ! j = 0 then 1 else 0) =
               (\<Sum>j = unat i..<unat len. if sl ! j = 0 then 1 else (0::nat))"
      using il by (simp add: sum.atLeast_Suc_lessThan)
    finally show ?thesis .
  qed
qed

lemma list_body_conserves:
  fixes st :: "'a::len word list"
  assumes "list_body i (zn, mc, sl, st) = (zn', mc', sl', st')"
    and "unat i < length sl" and "unat i < length st"
  shows "length sl' = length sl \<and> length st' = length st \<and>
    (\<forall>j < length st. j < length sl \<longrightarrow>
       st' ! j + scast (sl' ! j) = st ! j + scast (sl ! j))"
proof -
  let ?d = "sl ! unat i"
  consider "0 <s ?d" | "\<not> 0 <s ?d" "?d <s 0" | "\<not> 0 <s ?d" "\<not> ?d <s 0" by blast
  then show ?thesis
  proof cases
    case 1
    with assms(1) have e: "sl' = sl[unat i := ?d - 1]" "st' = st[unat i := st ! unat i + 1]"
      by (auto simp: list_body_def)
    show ?thesis using assms(2,3)
      by (auto simp: e nth_list_update scast_pred [OF 1])
  next
    case 2
    with assms(1) have e: "sl' = sl[unat i := ?d + 1]" "st' = st[unat i := st ! unat i - 1]"
      by (auto simp: list_body_def)
    show ?thesis using assms(2,3)
      by (auto simp: e nth_list_update scast_succ [OF 2(2)])
  next
    case 3
    with assms(1) have "sl' = sl" "st' = st" by (auto simp: list_body_def)
    then show ?thesis by simp
  qed
qed

lemma list_for_conserves:
  fixes st :: "'a::len word list"
  assumes "list_for len i (zn, mc, sl, st) = (zn', mc', sl', st')"
    and "unat len \<le> length sl" and "unat len \<le> length st"
  shows "length sl' = length sl \<and> length st' = length st \<and>
    (\<forall>j < length st. j < length sl \<longrightarrow>
       st' ! j + scast (sl' ! j) = st ! j + scast (sl ! j))"
  using assms
proof (induction len i "(zn, mc, sl, st)" arbitrary: zn mc sl st rule: list_for.induct)
  case (1 len i)
  show ?case
  proof (cases "i < len")
    case False
    with "1.prems"(1) show ?thesis by simp
  next
    case True
    then have il: "unat i < unat len" by (simp add: word_less_nat_alt)
    obtain zn1 mc1 sl1 st1 where b: "list_body i (zn, mc, sl, st) = (zn1, mc1, sl1, st1)"
      by (cases "list_body i (zn, mc, sl, st)") auto
    from list_body_conserves [OF b] il "1.prems"(2,3)
    have l: "length sl1 = length sl" "length st1 = length st"
      and c: "\<forall>j < length st. j < length sl \<longrightarrow>
         st1 ! j + scast (sl1 ! j) = st ! j + scast (sl ! j)"
      by simp_all
    from "1.prems"(1) True b have r: "list_for len (i + 1) (zn1, mc1, sl1, st1) = (zn', mc', sl', st')"
      by simp
    from "1.hyps" [OF True b r] l "1.prems"(2,3)
    have "length sl' = length sl1 \<and> length st' = length st1 \<and>
      (\<forall>j < length st1. j < length sl1 \<longrightarrow>
         st' ! j + scast (sl' ! j) = st1 ! j + scast (sl1 ! j))"
      by simp
    with l c show ?thesis by simp
  qed
qed

subsection \<open>The loop over the passes\<close>

lemma max_delta_le: "max_delta ds \<le> m \<longleftrightarrow> (\<forall>d \<in> set ds. nat \<bar>sint d\<bar> \<le> m)"
  by (induction ds) auto

lemma list_length_le: "unat (list_length s D) \<le> length D"
proof -
  have "unat (arrayLen D) \<le> length D" by (simp add: arrayLen_def unat_of_nat)
  moreover have "unat (list_length s D) \<le> unat (arrayLen D)"
    by (simp add: list_length_def word_le_nat_alt word_less_nat_alt)
  ultimately show ?thesis by simp
qed

lemma list_length_le_motors: "list_length s D \<le> nSteppers s"
  by (simp add: list_length_def not_less)


lemma list_loop_deltas:
  assumes "setStepperStep_list_loop E len zn sl s = Some (D', s')"
  shows "length D' = length sl \<and>
    (\<forall>j < length sl. nat \<bar>sint (D' ! j)\<bar> \<le> nat \<bar>sint (sl ! j)\<bar> \<and>
       (unat len \<le> j \<longrightarrow> D' ! j = sl ! j)) \<and>
    (zn < len \<longrightarrow> (\<forall>j < length sl. j < unat len \<longrightarrow> sl ! j \<noteq> 0 \<longrightarrow>
       nat \<bar>sint (D' ! j)\<bar> < nat \<bar>sint (sl ! j)\<bar>))"
proof -
  define Q :: "16 word \<Rightarrow> 16 word \<Rightarrow> 8 word list \<Rightarrow> 8 word list \<Rightarrow> bool" where
    "Q = (\<lambda>len zn sl D'. length D' = length sl \<and>
      (\<forall>j < length sl. nat \<bar>sint (D' ! j)\<bar> \<le> nat \<bar>sint (sl ! j)\<bar> \<and>
         (unat len \<le> j \<longrightarrow> D' ! j = sl ! j)) \<and>
      (zn < len \<longrightarrow> (\<forall>j < length sl. j < unat len \<longrightarrow> sl ! j \<noteq> 0 \<longrightarrow>
         nat \<bar>sint (D' ! j)\<bar> < nat \<bar>sint (sl ! j)\<bar>)))"
  have "Q len zn sl (fst (D', s'))"
  proof (rule setStepperStep_list_loop.raw_induct
      [where P = "\<lambda>E len zn sl s y. Q len zn sl (fst y)", OF _ assms])
    fix f :: "env \<Rightarrow> 16 word \<Rightarrow> 16 word \<Rightarrow> 8 word list \<Rightarrow> 'a word driver
                \<Rightarrow> (8 word list \<times> 'a word driver) option"
    fix E len zn sl s y
    assume IH: "\<And>E len zn sl s y. f E len zn sl s = Some y \<Longrightarrow> Q len zn sl (fst y)"
    assume eq: "(if zn < len
      then case list_for len 0 (zn, 0, sl, step_table s) of
           (zero_num', max_changed, step_list', table') \<Rightarrow>
             Option.bind (step E max_changed (s\<lparr>step_table := table'\<rparr>))
               (f E len zero_num' step_list')
      else Some (sl, s)) = Some y"
    show "Q len zn sl (fst y)"
    proof (cases "zn < len")
      case False
      with eq have "fst y = sl" by auto
      with False show ?thesis by (simp add: Q_def)
    next
      case True
      obtain zn1 mc sl1 st1 where p: "list_for len 0 (zn, 0, sl, step_table s) = (zn1, mc, sl1, st1)"
        by (cases "list_for len 0 (zn, 0, sl, step_table s)") auto
      with eq True obtain s2 where "f E len zn1 sl1 s2 = Some y"
        by (auto split: Option.bind_splits)
      from IH [OF this] have q: "Q len zn1 sl1 (fst y)" .
      from list_for_deltas [OF p]
      have l1: "length sl1 = length sl"
        and p1: "\<And>j. j < length sl \<Longrightarrow>
                   sl1 ! j = (if j < unat len then toward_zero (sl ! j) else sl ! j)"
        by simp_all
      have "nat \<bar>sint (fst y ! j)\<bar> \<le> nat \<bar>sint (sl ! j)\<bar> \<and>
            (unat len \<le> j \<longrightarrow> fst y ! j = sl ! j) \<and>
            (j < unat len \<longrightarrow> sl ! j \<noteq> 0 \<longrightarrow> nat \<bar>sint (fst y ! j)\<bar> < nat \<bar>sint (sl ! j)\<bar>)"
        if j: "j < length sl" for j
      proof -
        from q j l1 have a: "nat \<bar>sint (fst y ! j)\<bar> \<le> nat \<bar>sint (sl1 ! j)\<bar>"
          and b: "unat len \<le> j \<longrightarrow> fst y ! j = sl1 ! j" by (simp_all add: Q_def)
        show ?thesis
        proof (cases "j < unat len")
          case True
          with p1 [OF j] have e: "nat \<bar>sint (sl1 ! j)\<bar> = nat \<bar>sint (sl ! j)\<bar> - 1"
            by (simp add: toward_zero_abs)
          have c1: "nat \<bar>sint (fst y ! j)\<bar> \<le> nat \<bar>sint (sl ! j)\<bar>" using a e by linarith
          have c2: "nat \<bar>sint (fst y ! j)\<bar> < nat \<bar>sint (sl ! j)\<bar>" if "sl ! j \<noteq> 0"
            using a e nat_abs_sint_pos [OF that] by linarith
          from c1 c2 True show ?thesis by simp
        next
          case False
          with p1 [OF j] a b show ?thesis by simp
        qed
      qed
      moreover from q l1 have "length (fst y) = length sl" by (simp add: Q_def)
      ultimately show ?thesis by (simp add: Q_def)
    qed
  qed
  then show ?thesis by (simp add: Q_def)
qed

lemma list_loop_done:
  "\<not> zn < len \<Longrightarrow> setStepperStep_list_loop E len zn sl s = Some (sl, s)"
  by (subst setStepperStep_list_loop.simps) simp

lemma list_loop_pass:
  assumes "zn < len" and "list_for len 0 (zn, 0, sl, step_table s) = (zn1, mc, sl1, st1)"
  shows "setStepperStep_list_loop E len zn sl s =
           Option.bind (step E mc (s\<lparr>step_table := st1\<rparr>)) (setStepperStep_list_loop E len zn1 sl1)"
  using assms by (subst setStepperStep_list_loop.simps) simp

lemma list_loop_all_zero:
  assumes "0 < len" and "unat len \<le> length sl" and "\<forall>j < unat len. sl ! j = 0"
  shows "setStepperStep_list_loop E len 0 sl s = map_option (Pair sl) (step E 0 s)"
proof -
  have "list_for len 0 (0, 0, sl, step_table s) = (0 + (len - 0), 0, sl, step_table s)"
    using assms(2,3) by (intro list_for_zeros) auto
  then have p: "list_for len 0 (0, 0, sl, step_table s) = (len, 0, sl, step_table s)" by simp
  have "setStepperStep_list_loop E len 0 sl s =
          Option.bind (step E 0 (s\<lparr>step_table := step_table s\<rparr>)) (setStepperStep_list_loop E len len sl)"
    by (rule list_loop_pass [OF assms(1) p])
  also have "\<dots> = Option.bind (step E 0 s) (\<lambda>s2. Some (sl, s2))"
    by (cases "step E 0 s") (simp_all add: list_loop_done)
  also have "\<dots> = map_option (Pair sl) (step E 0 s)"
    by (cases "step E 0 s") simp_all
  finally show ?thesis .
qed

lemma list_loop_frames_bound:
  fixes s :: "'a::len word driver"
  assumes "setStepperStep_list_loop E len zn sl s = Some (D', s')"
    and "unat len \<le> length sl" and "unat len \<le> 32768"
    and "max_delta (take (unat len) sl) \<le> m"
  shows "length (frames s') \<le> length (frames s) + m + 1"
  using assms
proof (induction m arbitrary: zn sl s)
  case 0
  show ?case
  proof (cases "zn < len")
    case False
    with "0.prems"(1) show ?thesis by (simp add: list_loop_done)
  next
    case True
    from "0.prems"(4) have "\<forall>d \<in> set (take (unat len) sl). nat \<bar>sint d\<bar> \<le> 0"
      by (simp only: max_delta_le)
    then have "\<forall>d \<in> set (take (unat len) sl). d = 0"
      by (auto simp: signed_eq_0_iff)
    have z: "\<forall>j < unat len. sl ! j = 0"
    proof (intro allI impI)
      fix j assume j: "j < unat len"
      with "0.prems"(2) have "take (unat len) sl ! j \<in> set (take (unat len) sl)"
        by (intro nth_mem) simp
      with j \<open>\<forall>d \<in> set (take (unat len) sl). d = 0\<close> show "sl ! j = 0" by simp
    qed
    have "list_for len 0 (zn, 0, sl, step_table s) = (zn + (len - 0), 0, sl, step_table s)"
      using "0.prems"(2) z by (intro list_for_zeros) auto
    then have p: "list_for len 0 (zn, 0, sl, step_table s) = (zn + len, 0, sl, step_table s)"
      by simp
    from True have "unat zn < unat len" by (simp add: word_less_nat_alt)
    with "0.prems"(3) have "unat zn + unat len < 2 ^ LENGTH(16)" by simp
    then have "unat (zn + len) = unat zn + unat len" by (simp only: unat_add_lem)
    then have stop: "\<not> zn + len < len" by (simp add: word_less_nat_alt)
    from "0.prems"(1) list_loop_pass [OF True p, of E]
    obtain s2 where run: "step E 0 (s\<lparr>step_table := step_table s\<rparr>) = Some s2"
      and rest: "setStepperStep_list_loop E len (zn + len) sl s2 = Some (D', s')"
      by (auto split: Option.bind_splits)
    from rest stop have "s' = s2" by (simp add: list_loop_done)
    with step_frames(1) [OF run] show ?thesis by simp
  qed
next
  case (Suc m)
  show ?case
  proof (cases "zn < len")
    case False
    with Suc.prems(1) show ?thesis by (simp add: list_loop_done)
  next
    case True
    obtain zn1 mc sl1 st1 where p: "list_for len 0 (zn, 0, sl, step_table s) = (zn1, mc, sl1, st1)"
      by (cases "list_for len 0 (zn, 0, sl, step_table s)") auto
    from Suc.prems(1) list_loop_pass [OF True p, of E]
    obtain s2 where run: "step E mc (s\<lparr>step_table := st1\<rparr>) = Some s2"
      and rest: "setStepperStep_list_loop E len zn1 sl1 s2 = Some (D', s')"
      by (auto split: Option.bind_splits)
    from list_for_deltas [OF p]
    have l1: "length sl1 = length sl"
      and p1: "\<And>j. j < length sl \<Longrightarrow>
                 sl1 ! j = (if j < unat len then toward_zero (sl ! j) else sl ! j)"
      by simp_all
    have "nat \<bar>sint d\<bar> \<le> m" if "d \<in> set (take (unat len) sl1)" for d
    proof -
      from that l1 Suc.prems(2) obtain j where j: "j < unat len" and d: "d = sl1 ! j"
        by (auto simp: in_set_conv_nth)
      from j Suc.prems(2) have "take (unat len) sl ! j \<in> set (take (unat len) sl)"
        by (intro nth_mem) simp
      with j have "sl ! j \<in> set (take (unat len) sl)" by simp
      with Suc.prems(4) have "nat \<bar>sint (sl ! j)\<bar> \<le> Suc m" by (simp add: max_delta_le)
      moreover from j Suc.prems(2) p1 [of j] have "d = toward_zero (sl ! j)" by (simp add: d)
      ultimately show ?thesis using toward_zero_abs [of "sl ! j"] by (simp add: le_diff_conv)
    qed
    then have "max_delta (take (unat len) sl1) \<le> m" by (simp add: max_delta_le)
    from Suc.IH [OF rest _ Suc.prems(3) this] l1 Suc.prems(2)
    have "length (frames s') \<le> length (frames s2) + m + 1" by simp
    with step_frames(1) [OF run] show ?thesis by simp
  qed
qed

lemma max_delta_toward_zero: "max_delta (map toward_zero ds) = max_delta ds - 1"
  by (induction ds) (auto simp: toward_zero_abs max_def)

lemma zero_num_adds:
  fixes zn len :: "16 word"
  assumes "zn < len" and "unat len \<le> 32768" and "c \<le> unat len"
  shows "unat (zn + word_of_nat c) = unat zn + c"
proof -
  from assms(1) have "unat zn < unat len" by (simp add: word_less_nat_alt)
  with assms(2,3) have "unat zn + c < 2 ^ 16" by simp
  then show ?thesis by (simp add: unat_word_ariths unat_of_nat)
qed

lemma list_loop_frames_exact:
  fixes s :: "'a::len word driver"
  assumes "setStepperStep_list_loop E len zn sl s = Some (D', s')"
    and "unat len \<le> length sl" and "unat len \<le> 32768"
    and "max_delta (take (unat len) sl) = m"
    and "unat zn + (\<Sum>j<unat len. m - nat \<bar>sint (sl ! j)\<bar>) < unat len"
  shows "length (frames s') = length (frames s) + m + 1"
  using assms
proof (induction m arbitrary: zn sl s)
  case 0
  from "0.prems"(5) have True: "zn < len" by (simp add: word_less_nat_alt)
  from "0.prems"(4) have "max_delta (take (unat len) sl) \<le> 0" by simp
  then have "\<forall>d \<in> set (take (unat len) sl). nat \<bar>sint d\<bar> \<le> 0"
    by (simp only: max_delta_le)
  then have "\<forall>d \<in> set (take (unat len) sl). d = 0"
    by (auto simp: signed_eq_0_iff)
  have z: "\<forall>j < unat len. sl ! j = 0"
  proof (intro allI impI)
    fix j assume j: "j < unat len"
    with "0.prems"(2) have "take (unat len) sl ! j \<in> set (take (unat len) sl)"
      by (intro nth_mem) simp
    with j \<open>\<forall>d \<in> set (take (unat len) sl). d = 0\<close> show "sl ! j = 0" by simp
  qed
  have "list_for len 0 (zn, 0, sl, step_table s) = (zn + (len - 0), 0, sl, step_table s)"
    using "0.prems"(2) z by (intro list_for_zeros) auto
  then have p: "list_for len 0 (zn, 0, sl, step_table s) = (zn + len, 0, sl, step_table s)"
    by simp
  from True have "unat zn < unat len" by (simp add: word_less_nat_alt)
  with "0.prems"(3) have "unat zn + unat len < 2 ^ LENGTH(16)" by simp
  then have "unat (zn + len) = unat zn + unat len" by (simp only: unat_add_lem)
  then have stop: "\<not> zn + len < len" by (simp add: word_less_nat_alt)
  from "0.prems"(1) list_loop_pass [OF True p, of E]
  obtain s2 where run: "step E 0 (s\<lparr>step_table := step_table s\<rparr>) = Some s2"
    and rest: "setStepperStep_list_loop E len (zn + len) sl s2 = Some (D', s')"
    by (auto split: Option.bind_splits)
  from rest stop have "s' = s2" by (simp add: list_loop_done)
  with step_frames(1) [OF run] show ?case by simp
next
  case (Suc m)
  from Suc.prems(5) have True: "zn < len" by (simp add: word_less_nat_alt)
  obtain zn1 mc sl1 st1 where p: "list_for len 0 (zn, 0, sl, step_table s) = (zn1, mc, sl1, st1)"
    by (cases "list_for len 0 (zn, 0, sl, step_table s)") auto
  from Suc.prems(1) list_loop_pass [OF True p, of E]
  obtain s2 where run: "step E mc (s\<lparr>step_table := st1\<rparr>) = Some s2"
    and rest: "setStepperStep_list_loop E len zn1 sl1 s2 = Some (D', s')"
    by (auto split: Option.bind_splits)
  from list_for_deltas [OF p]
  have l1: "length sl1 = length sl"
    and p1: "\<And>j. j < length sl \<Longrightarrow>
               sl1 ! j = (if j < unat len then toward_zero (sl ! j) else sl ! j)"
    by simp_all
  have p2: "sl1 ! j = toward_zero (sl ! j)" if "j < unat len" for j
    using p1 [of j] that Suc.prems(2) by simp
  have "take (unat len) sl1 = map toward_zero (take (unat len) sl)"
    using l1 Suc.prems(2) by (intro nth_equalityI) (simp_all add: p2)
  then have m1: "max_delta (take (unat len) sl1) = m"
    using Suc.prems(4) by (simp add: max_delta_toward_zero)
  let ?c = "\<Sum>j<unat len. if sl ! j = 0 then 1 else (0::nat)"
  have "?c \<le> (\<Sum>j<unat len. 1)" by (intro sum_mono) simp
  then have c: "?c \<le> unat len" by simp
  from list_for_zero_num [OF p] have "zn1 = zn + word_of_nat ?c"
    by (simp add: atLeast0LessThan)
  with zero_num_adds [OF True Suc.prems(3) c] have zn1: "unat zn1 = unat zn + ?c" by simp
  have el: "m - nat \<bar>sint (sl1 ! j)\<bar> + (if sl ! j = 0 then 1 else 0) = Suc m - nat \<bar>sint (sl ! j)\<bar>"
    if "j < unat len" for j
  proof (cases "sl ! j = 0")
    case True
    with p2 [OF that] show ?thesis by simp
  next
    case False
    from nat_abs_sint_pos [OF False] p2 [OF that] False show ?thesis
      by (simp add: toward_zero_abs)
  qed
  have "(\<Sum>j<unat len. m - nat \<bar>sint (sl1 ! j)\<bar>) + ?c =
        (\<Sum>j<unat len. m - nat \<bar>sint (sl1 ! j)\<bar> + (if sl ! j = 0 then 1 else 0))"
    by (simp only: sum.distrib)
  also have "\<dots> = (\<Sum>j<unat len. Suc m - nat \<bar>sint (sl ! j)\<bar>)"
    by (rule sum.cong) (simp_all add: el)
  finally have "unat zn1 + (\<Sum>j<unat len. m - nat \<bar>sint (sl1 ! j)\<bar>) < unat len"
    using Suc.prems(5) zn1 by simp
  from Suc.IH [OF rest _ Suc.prems(3) m1 this] l1 Suc.prems(2)
  have "length (frames s') = length (frames s2) + m + 1" by simp
  with step_frames(1) [OF run] show ?case by simp
qed

lemma list_loop_passes:
  assumes "setStepperStep_list_loop E len zn sl s = Some (D', s')"
  shows "length (frames s) \<le> length (frames s') \<and>
    (zn < len \<longrightarrow> length (frames s) < length (frames s')) \<and>
    (\<forall>j < length sl. j < unat len \<longrightarrow>
       sint (D' ! j) = sgn (sint (sl ! j)) *
         int (nat \<bar>sint (sl ! j)\<bar> - (length (frames s') - length (frames s))))"
proof -
  define Q :: "16 word \<Rightarrow> 16 word \<Rightarrow> 8 word list \<Rightarrow> nat \<Rightarrow> 8 word list \<Rightarrow> nat \<Rightarrow> bool" where
    "Q = (\<lambda>len zn sl n D' n'. n \<le> n' \<and> (zn < len \<longrightarrow> n < n') \<and>
      (\<forall>j < length sl. j < unat len \<longrightarrow>
         sint (D' ! j) = sgn (sint (sl ! j)) * int (nat \<bar>sint (sl ! j)\<bar> - (n' - n))))"
  have "Q len zn sl (length (frames s)) (fst (D', s')) (length (frames (snd (D', s'))))"
  proof (rule setStepperStep_list_loop.raw_induct
      [where P = "\<lambda>E len zn sl s y. Q len zn sl (length (frames s)) (fst y) (length (frames (snd y)))",
        OF _ assms])
    fix f :: "env \<Rightarrow> 16 word \<Rightarrow> 16 word \<Rightarrow> 8 word list \<Rightarrow> 'a word driver
                \<Rightarrow> (8 word list \<times> 'a word driver) option"
    fix E len zn sl s y
    assume IH: "\<And>E len zn sl s y. f E len zn sl s = Some y \<Longrightarrow>
                  Q len zn sl (length (frames s)) (fst y) (length (frames (snd y)))"
    assume eq: "(if zn < len
      then case list_for len 0 (zn, 0, sl, step_table s) of
           (zero_num', max_changed, step_list', table') \<Rightarrow>
             Option.bind (step E max_changed (s\<lparr>step_table := table'\<rparr>))
               (f E len zero_num' step_list')
      else Some (sl, s)) = Some y"
    show "Q len zn sl (length (frames s)) (fst y) (length (frames (snd y)))"
    proof (cases "zn < len")
      case False
      with eq have "y = (sl, s)" by auto
      moreover have "a = sgn a * int (nat \<bar>a\<bar> - 0)" for a :: int by (simp add: mult_sgn_abs)
      ultimately show ?thesis using False by (simp add: Q_def)
    next
      case True
      obtain zn1 mc sl1 st1 where p: "list_for len 0 (zn, 0, sl, step_table s) = (zn1, mc, sl1, st1)"
        by (cases "list_for len 0 (zn, 0, sl, step_table s)") auto
      with eq True obtain s2 where run: "step E mc (s\<lparr>step_table := st1\<rparr>) = Some s2"
        and rest: "f E len zn1 sl1 s2 = Some y"
        by (auto split: Option.bind_splits)
      from step_frames(1) [OF run] have n2: "length (frames s2) = Suc (length (frames s))" by simp
      from IH [OF rest] have q: "Q len zn1 sl1 (Suc (length (frames s))) (fst y) (length (frames (snd y)))"
        by (simp add: n2)
      from list_for_deltas [OF p]
      have l1: "length sl1 = length sl"
        and p1: "\<And>j. j < length sl \<Longrightarrow>
                   sl1 ! j = (if j < unat len then toward_zero (sl ! j) else sl ! j)"
        by simp_all
      from q have "Suc (length (frames s)) \<le> length (frames (snd y))" by (simp only: Q_def)
      then have lt: "length (frames s) < length (frames (snd y))" by simp
      then have suc: "Suc (length (frames (snd y)) - Suc (length (frames s))) =
          length (frames (snd y)) - length (frames s)" by simp
      have key: "sint (fst y ! j) = sgn (sint (sl ! j)) *
            int (nat \<bar>sint (sl ! j)\<bar> - (length (frames (snd y)) - length (frames s)))"
        if j: "j < length sl" "j < unat len" for j
      proof -
        from q j l1 have "sint (fst y ! j) = sgn (sint (sl1 ! j)) *
            int (nat \<bar>sint (sl1 ! j)\<bar> - (length (frames (snd y)) - Suc (length (frames s))))"
          by (simp only: Q_def)
        moreover from p1 [OF j(1)] j(2)
        have "sint (sl1 ! j) = sgn (sint (sl ! j)) * int (nat \<bar>sint (sl ! j)\<bar> - 1)"
          by (simp only: if_True toward_zero_sint)
        ultimately have "sint (fst y ! j) = sgn (sint (sl ! j)) *
            int (nat \<bar>sint (sl ! j)\<bar> - Suc (length (frames (snd y)) - Suc (length (frames s))))"
          by (rule sgn_steps [rotated])
        then show ?thesis by (simp only: suc)
      qed
      show ?thesis
        unfolding Q_def
      proof (intro conjI impI allI)
        from lt show "length (frames s) \<le> length (frames (snd y))" by (rule less_imp_le)
        from lt show "length (frames s) < length (frames (snd y))" .
        fix j assume "j < length sl" "j < unat len"
        then show "sint (fst y ! j) = sgn (sint (sl ! j)) *
            int (nat \<bar>sint (sl ! j)\<bar> - (length (frames (snd y)) - length (frames s)))"
          by (rule key)
      qed
    qed
  qed
  then show ?thesis by (simp add: Q_def)
qed

lemma list_loop_conserves:
  fixes s :: "'a::len word driver"
  assumes "setStepperStep_list_loop E len zn sl s = Some (D', s')"
    and "unat len \<le> length sl" and "unat len \<le> length (step_table s)"
  shows "length D' = length sl \<and> length (step_table s') = length (step_table s) \<and>
    (\<forall>j < length (step_table s). j < length sl \<longrightarrow>
       step_table s' ! j + scast (D' ! j) =
       step_table s ! j + scast (sl ! j))"
proof -
  define Q :: "16 word \<Rightarrow> 8 word list \<Rightarrow> 'a word list \<Rightarrow> 8 word list \<Rightarrow> 'a word list \<Rightarrow> bool" where
    "Q = (\<lambda>len sl st D' st'. unat len \<le> length sl \<longrightarrow> unat len \<le> length st \<longrightarrow>
       length D' = length sl \<and> length st' = length st \<and>
       (\<forall>j < length st. j < length sl \<longrightarrow>
          st' ! j + scast (D' ! j) = st ! j + scast (sl ! j)))"
  have "Q len sl (step_table s) (fst (D', s')) (step_table (snd (D', s')))"
  proof (rule setStepperStep_list_loop.raw_induct
      [where P = "\<lambda>E len zn sl s y. Q len sl (step_table s) (fst y) (step_table (snd y))",
        OF _ assms(1)])
    fix f :: "env \<Rightarrow> 16 word \<Rightarrow> 16 word \<Rightarrow> 8 word list \<Rightarrow> 'a word driver
                \<Rightarrow> (8 word list \<times> 'a word driver) option"
    fix E len zn sl s y
    assume IH: "\<And>E len zn sl s y. f E len zn sl s = Some y \<Longrightarrow>
                  Q len sl (step_table s) (fst y) (step_table (snd y))"
    assume eq: "(if zn < len
      then case list_for len 0 (zn, 0, sl, step_table s) of
           (zero_num', max_changed, step_list', table') \<Rightarrow>
             Option.bind (step E max_changed (s\<lparr>step_table := table'\<rparr>))
               (f E len zero_num' step_list')
      else Some (sl, s)) = Some y"
    show "Q len sl (step_table s) (fst y) (step_table (snd y))"
    proof (cases "zn < len")
      case False
      with eq have "y = (sl, s)" by auto
      then show ?thesis by (simp add: Q_def)
    next
      case True
      obtain zn1 mc sl1 st1 where p: "list_for len 0 (zn, 0, sl, step_table s) = (zn1, mc, sl1, st1)"
        by (cases "list_for len 0 (zn, 0, sl, step_table s)") auto
      with eq True obtain s2 where run: "step E mc (s\<lparr>step_table := st1\<rparr>) = Some s2"
        and rest: "f E len zn1 sl1 s2 = Some y"
        by (auto split: Option.bind_splits)
      from step_frames(2) [OF run] have t2: "step_table s2 = st1" by simp
      from IH [OF rest] have q: "Q len sl1 st1 (fst y) (step_table (snd y))" by (simp add: t2)
      show ?thesis
        unfolding Q_def
      proof (intro impI)
        assume a: "unat len \<le> length sl" "unat len \<le> length (step_table s)"
        from list_for_conserves [OF p a]
        have l: "length sl1 = length sl" "length st1 = length (step_table s)"
          and c: "\<forall>j < length (step_table s). j < length sl \<longrightarrow>
             st1 ! j + scast (sl1 ! j) =
             step_table s ! j + scast (sl ! j)"
          by simp_all
        from q a l have "length (fst y) = length sl1 \<and> length (step_table (snd y)) = length st1 \<and>
          (\<forall>j < length st1. j < length sl1 \<longrightarrow>
             step_table (snd y) ! j + scast (fst y ! j) =
             st1 ! j + scast (sl1 ! j))"
          by (simp add: Q_def)
        with l c show "length (fst y) = length sl \<and>
          length (step_table (snd y)) = length (step_table s) \<and>
          (\<forall>j < length (step_table s). j < length sl \<longrightarrow>
             step_table (snd y) ! j + scast (fst y ! j) =
             step_table s ! j + scast (sl ! j))"
          by simp
      qed
    qed
  qed
  with assms(2,3) show ?thesis by (simp add: Q_def)
qed

lemma setStepperStep_list_conserves:
  fixes s :: "'a::len word driver"
  assumes "setStepperStep_list E D s = Some (D', s')" and "allocated s"
    and "j < unat (list_length s D)"
  shows "step_table s' ! j + scast (D' ! j) =
         step_table s ! j + scast (D ! j)"
proof -
  from assms(1) have run: "setStepperStep_list_loop E (list_length s D) 0 D s = Some (D', s')"
    by (simp add: setStepperStep_list_def)
  have a: "unat (list_length s D) \<le> length D" by (rule list_length_le)
  have b: "unat (list_length s D) \<le> length (step_table s)"
    using list_length_le_motors [of s D] assms(2) by (simp add: allocated_def word_le_nat_alt)
  from list_loop_conserves [OF run a b] assms(3) a b show ?thesis by simp
qed

lemma list_loop_returns:
  fixes s :: "'a::len word driver"
  assumes "ticking E (step_delay s)" and "nSteppers s \<noteq> 65535" and "unat len \<le> length sl"
  shows "\<exists>r. setStepperStep_list_loop E len zn sl s = Some r"
  using assms
proof (induction "\<Sum>j<unat len. nat \<bar>sint (sl ! j)\<bar>" arbitrary: sl zn s rule: less_induct)
  case less
  note outer = less.hyps
  show ?case using less.prems
  proof (induction "if zn < len then Suc (unat zn) else 0" arbitrary: zn s rule: less_induct)
    case (less zn s)
    show ?case
    proof (cases "zn < len")
      case False
      then show ?thesis by (simp add: list_loop_done)
    next
      case True
      obtain zn1 mc sl1 st1 where p: "list_for len 0 (zn, 0, sl, step_table s) = (zn1, mc, sl1, st1)"
        by (cases "list_for len 0 (zn, 0, sl, step_table s)") auto
      let ?s1 = "s\<lparr>step_table := st1\<rparr>"
      have "ticking E (step_delay ?s1)" "active_length ?s1 mc \<noteq> 65535"
        using less.prems(1,2) by (simp_all add: active_length_neq)
      from step_returns [OF this] obtain s2 where run: "step E mc ?s1 = Some s2" by blast
      from step_frames [OF run] have s2: "step_delay s2 = step_delay s" "nSteppers s2 = nSteppers s"
        by simp_all
      have unfold: "setStepperStep_list_loop E len zn sl s = setStepperStep_list_loop E len zn1 sl1 s2"
        using list_loop_pass [OF True p, of E] run by simp
      from list_for_deltas [OF p] less.prems(3)
      have l1: "length sl1 = length sl"
        and p1: "\<And>j. j < unat len \<Longrightarrow> sl1 ! j = toward_zero (sl ! j)"
        by simp_all
      have pre: "ticking E (step_delay s2)" "nSteppers s2 \<noteq> 65535" "unat len \<le> length sl1"
        using less.prems s2 l1 by simp_all
      show ?thesis
      proof (cases "\<forall>j < unat len. sl ! j = 0")
        case True
        have "list_for len 0 (zn, 0, sl, step_table s) = (zn + (len - 0), 0, sl, step_table s)"
          using less.prems(3) True by (intro list_for_zeros) auto
        with p have e: "zn1 = zn + len" "sl1 = sl" by simp_all
        have "(if zn1 < len then Suc (unat zn1) else 0) < (if zn < len then Suc (unat zn) else 0)"
          using \<open>zn < len\<close> zero_num_wraps [of zn len] by (simp add: e)
        from less.hyps [OF this] pre e have "\<exists>r. setStepperStep_list_loop E len zn1 sl s2 = Some r"
          by simp
        with unfold e show ?thesis by simp
      next
        case False
        then obtain a where a: "a < unat len" "sl ! a \<noteq> 0" by blast
        have "(\<Sum>j<unat len. nat \<bar>sint (sl1 ! j)\<bar>) < (\<Sum>j<unat len. nat \<bar>sint (sl ! j)\<bar>)"
        proof (rule sum_strict_mono_ex1)
          show "finite {..<unat len}" by simp
          show "\<forall>j\<in>{..<unat len}. nat \<bar>sint (sl1 ! j)\<bar> \<le> nat \<bar>sint (sl ! j)\<bar>"
            by (simp add: p1 toward_zero_abs)
          from a nat_abs_sint_pos [of "sl ! a"]
          have "nat \<bar>sint (sl1 ! a)\<bar> < nat \<bar>sint (sl ! a)\<bar>"
            by (simp add: p1 toward_zero_abs del: nat_abs_sint_pos)
          with a(1) show "\<exists>a\<in>{..<unat len}. nat \<bar>sint (sl1 ! a)\<bar> < nat \<bar>sint (sl ! a)\<bar>"
            by blast
        qed
        from outer [OF this pre] unfold show ?thesis by simp
      qed
    qed
  qed
qed

lemma setStepperStep_list_returns:
  fixes s :: "'a::len word driver"
  assumes "ticking E (step_delay s)" and "nSteppers s \<noteq> 65535"
  shows "\<exists>r. setStepperStep_list E D s = Some r"
  unfolding setStepperStep_list_def using assms list_length_le by (rule list_loop_returns)

subsection \<open>Homing\<close>

lemma home_body_table:
  "home_body i (zn, mc, st) = (zn', mc', st') \<Longrightarrow> st' = st[unat i := toward_zero (st ! unat i)]"
  by (auto simp: home_body_def toward_zero_def split: if_splits)

lemma home_for_table:
  "home_for len i (zn, mc, st) = (zn', mc', st') \<Longrightarrow>
     length st' = length st \<and>
     (\<forall>j < length st. st' ! j =
        (if unat i \<le> j \<and> j < unat len then toward_zero (st ! j) else st ! j))"
proof (induction len i "(zn, mc, st)" arbitrary: zn mc st rule: home_for.induct)
  case (1 len i)
  show ?case
  proof (cases "i < len")
    case False
    with "1.prems" have "st' = st" by simp
    moreover from False have "unat len \<le> unat i" by (simp add: word_less_nat_alt)
    ultimately show ?thesis by auto
  next
    case True
    obtain zn1 mc1 st1 where b: "home_body i (zn, mc, st) = (zn1, mc1, st1)"
      by (cases "home_body i (zn, mc, st)") auto
    from home_body_table [OF b] have st1: "st1 = st[unat i := toward_zero (st ! unat i)]" .
    from "1.prems" True b have r: "home_for len (i + 1) (zn1, mc1, st1) = (zn', mc', st')"
      by simp
    from "1.hyps" [OF True b r]
    have len: "length st' = length st1"
      and pt: "\<forall>j < length st1. st' ! j =
        (if unat (i + 1) \<le> j \<and> j < unat len then toward_zero (st1 ! j) else st1 ! j)"
      by simp_all
    have u: "unat (i + 1) = Suc (unat i)" by (rule unat_succ_less [OF True])
    have il: "unat i < unat len" using True by (simp add: word_less_nat_alt)
    have "st' ! j = (if unat i \<le> j \<and> j < unat len then toward_zero (st ! j) else st ! j)"
      if "j < length st" for j
    proof (cases "j = unat i")
      case True
      with pt that u il show ?thesis by (simp add: st1)
    next
      case False
      with pt that u show ?thesis by (auto simp: st1)
    qed
    with len show ?thesis by (simp add: st1)
  qed
qed

lemma home_for_zeros:
  assumes "\<forall>j. unat i \<le> j \<and> j < unat len \<longrightarrow> j < length st \<and> st ! j = 0" and "i \<le> len"
  shows "home_for len i (zn, mc, st) = (zn + (len - i), mc, st)"
  using assms
proof (induction len i "(zn, mc, st)" arbitrary: zn rule: home_for.induct)
  case (1 len i)
  show ?case
  proof (cases "i < len")
    case False
    with "1.prems"(2) have "i = len" by simp
    then show ?thesis by simp
  next
    case True
    then have il: "unat i < unat len" by (simp add: word_less_nat_alt)
    with "1.prems"(1) have z: "st ! unat i = 0" by simp
    then have b: "home_body i (zn, mc, st) = (zn + 1, mc, st)"
      by (simp add: home_body_def)
    have u: "unat (i + 1) = Suc (unat i)" by (rule unat_succ_less [OF True])
    have le: "i + 1 \<le> len" using u il by (simp add: word_le_nat_alt)
    have "\<forall>j. unat (i + 1) \<le> j \<and> j < unat len \<longrightarrow> j < length st \<and> st ! j = 0"
      using "1.prems"(1) u by simp
    from "1.hyps" [OF True b this le]
    have "home_for len (i + 1) (zn + 1, mc, st) = (zn + 1 + (len - (i + 1)), mc, st)" .
    with True b show ?thesis by simp
  qed
qed

lemma home_loop_done: "\<not> zn < nSteppers s \<Longrightarrow> home_loop E zn s = Some s"
  by (subst home_loop.simps) simp

lemma home_loop_pass:
  assumes "zn < nSteppers s" and "home_for (nSteppers s) 0 (zn, 0, step_table s) = (zn1, mc, st1)"
  shows "home_loop E zn s = Option.bind (step E mc (s\<lparr>step_table := st1\<rparr>)) (home_loop E zn1)"
  using assms by (subst home_loop.simps) simp

lemma home_loop_returns:
  fixes s :: "'a::len word driver"
  assumes "ticking E (step_delay s)" and "nSteppers s \<noteq> 65535" and "allocated s"
  shows "\<exists>s'. home_loop E zn s = Some s'"
  using assms
proof (induction "(\<Sum>j<unat (nSteppers s). nat \<bar>sint (step_table s ! j)\<bar>) * 65537 +
    (if zn < nSteppers s then Suc (unat zn) else 0)" arbitrary: zn s rule: less_induct)
  case (less zn s)
  let ?n = "nSteppers s"
  show ?case
  proof (cases "zn < ?n")
    case False
    then show ?thesis by (simp add: home_loop_done)
  next
    case True
    obtain zn1 mc st1 where p: "home_for ?n 0 (zn, 0, step_table s) = (zn1, mc, st1)"
      by (cases "home_for ?n 0 (zn, 0, step_table s)") auto
    let ?s1 = "s\<lparr>step_table := st1\<rparr>"
    have "ticking E (step_delay ?s1)" "active_length ?s1 mc \<noteq> 65535"
      using less.prems(1,2) by (simp_all add: active_length_neq)
    from step_returns [OF this] obtain s2 where run: "step E mc ?s1 = Some s2" by blast
    from step_frames [OF run]
    have s2: "step_delay s2 = step_delay s" "nSteppers s2 = ?n" "step_table s2 = st1"
      by simp_all
    have unfold: "home_loop E zn s = home_loop E zn1 s2"
      using home_loop_pass [OF True p, of E] run by simp
    from less.prems(3) have cov: "unat ?n = length (step_table s)" by (simp add: allocated_def)
    from home_for_table [OF p] cov
    have l1: "length st1 = length (step_table s)"
      and p1: "\<And>j. j < unat ?n \<Longrightarrow> st1 ! j = toward_zero (step_table s ! j)"
      by simp_all
    have pre: "ticking E (step_delay s2)" "nSteppers s2 \<noteq> 65535" "allocated s2"
      using less.prems s2 l1 by (simp_all add: allocated_def)
    let ?sum = "\<Sum>j<unat ?n. nat \<bar>sint (step_table s ! j)\<bar>"
    let ?sum1 = "\<Sum>j<unat ?n. nat \<bar>sint (st1 ! j)\<bar>"
    have "unat zn1 < 2 ^ 16" using unsigned_less [of zn1] by simp
    then have bound: "(if zn1 < ?n then Suc (unat zn1) else 0) \<le> 65536" by simp
    have "?sum1 * 65537 + (if zn1 < ?n then Suc (unat zn1) else 0)
            < ?sum * 65537 + (if zn < ?n then Suc (unat zn) else 0)"
    proof (cases "\<forall>j < unat ?n. step_table s ! j = 0")
      case True
      have "home_for ?n 0 (zn, 0, step_table s) = (zn + (?n - 0), 0, step_table s)"
        using cov True by (intro home_for_zeros) auto
      with p have e: "zn1 = zn + ?n" "st1 = step_table s" by simp_all
      have "(if zn1 < ?n then Suc (unat zn1) else 0) < (if zn < ?n then Suc (unat zn) else 0)"
        using \<open>zn < ?n\<close> zero_num_wraps [of zn ?n] by (simp add: e)
      then show ?thesis by (simp add: e)
    next
      case False
      then obtain a where a: "a < unat ?n" "step_table s ! a \<noteq> 0" by blast
      have "?sum1 < ?sum"
      proof (rule sum_strict_mono_ex1)
        show "finite {..<unat ?n}" by simp
        show "\<forall>j\<in>{..<unat ?n}. nat \<bar>sint (st1 ! j)\<bar> \<le> nat \<bar>sint (step_table s ! j)\<bar>"
          by (simp add: p1 toward_zero_abs)
        from a nat_abs_sint_pos [of "step_table s ! a"]
        have "nat \<bar>sint (st1 ! a)\<bar> < nat \<bar>sint (step_table s ! a)\<bar>"
          by (simp add: p1 toward_zero_abs del: nat_abs_sint_pos)
        with a(1) show "\<exists>a\<in>{..<unat ?n}. nat \<bar>sint (st1 ! a)\<bar> < nat \<bar>sint (step_table s ! a)\<bar>"
          by blast
      qed
      then have "Suc ?sum1 \<le> ?sum" by simp
      then have "Suc ?sum1 * 65537 \<le> ?sum * 65537" by (rule mult_le_mono1)
      with bound show ?thesis by simp
    qed
    then have "(\<Sum>j<unat (nSteppers s2). nat \<bar>sint (step_table s2 ! j)\<bar>) * 65537 +
        (if zn1 < nSteppers s2 then Suc (unat zn1) else 0)
        < ?sum * 65537 + (if zn < ?n then Suc (unat zn) else 0)"
      by (simp only: s2)
    from less.hyps [OF this pre] unfold show ?thesis by simp
  qed
qed

lemma home_returns:
  fixes s :: "'a::len word driver"
  assumes "ticking E (step_delay s)" and "nSteppers s \<noteq> 65535" and "allocated s"
  shows "\<exists>s'. home E s = Some s'"
  unfolding home_def using assms by (rule home_loop_returns)

subsection \<open>Concrete runs\<close>

lemma replicate3: "replicate 3 x = [x, x, x]" by (simp add: numeral_3_eq_3)

lemma Hundred_Steppers_bench3:
  "(Hundred_Steppers bench True 3 200 :: 8 word driver option) = Some fresh3"
  by (simp add: bench_def fresh3_def Hundred_Steppers_def setSpeedRevPerMin_def calloc_def
      micros_def replicate3)

lemmas step_eval = step_def wait_gate.simps shift_loop.simps active_length_def
  shift_motor_def phase_index_def micros_def

lemmas run_eval = bench_def fresh3_def step_eval
  setStepperStep_def setStepperStep_loop.simps
  setStepperStep_list_def list_length_def arrayLen_def setStepperStep_list_loop.simps
  list_body_def
  home_def home_loop.simps home_body_def
  word_le_nat_alt word_less_nat_alt word_sless_alt smod_int_alt_def

lemma step_bench_1:
  "step bench 1 fresh3 = Some (fresh3\<lparr>last_step_time := 10000, micros_calls := 3,
                   frames := [ [ShiftOut 1 1, ShiftOut 0 1] ]\<rparr>)"
  by (simp add: run_eval split del: if_split)

lemma run_list_1: "map_option fst (setStepperStep_list bench [1] fresh3) = Some [0]"
  by (simp add: run_eval split del: if_split)


lemma run_list_2: "map_option fst (setStepperStep_list bench [2, - 2] fresh3) = Some [0, 0]"
  by (simp add: run_eval split del: if_split)





section \<open>The timing gate\<close>




section \<open>Resizing\<close>

text \<open>
  C10. \<open>setStepperNum(n)\<close> returns whether the allocation succeeded. On success the
  motor count, as \<open>getStepperNum\<close> reports it, is \<open>n\<close> and the table consists of \<open>n\<close>
  zeroed counters; on failure the count, the table and everything else are as before.
\<close>

theorem setStepperNum_result:
  "fst (setStepperNum heap_ok n s) = heap_ok \<and>
   getStepperNum (snd (setStepperNum heap_ok n s)) = (if heap_ok then n else getStepperNum s) \<and>
   step_table (snd (setStepperNum heap_ok n s)) =
     (if heap_ok then replicate (unat n) 0 else step_table s) \<and>
   (heap_ok \<longrightarrow> allocated (snd (setStepperNum heap_ok n s))) \<and>
   (\<not> heap_ok \<longrightarrow> snd (setStepperNum heap_ok n s) = s)"
  by (simp add: setStepperNum_def calloc_def getStepperNum_def allocated_def)

theorem setStepperNum_result_witness:
  "fst (setStepperNum True 5 fresh3) \<and> getStepperNum (snd (setStepperNum True 5 fresh3)) = 5 \<and>
   step_table (snd (setStepperNum True 5 fresh3)) = replicate 5 0 \<and>
   allocated (snd (setStepperNum True 5 fresh3)) \<and>
   \<not> fst (setStepperNum False 5 fresh3) \<and> snd (setStepperNum False 5 fresh3) = fresh3"
  using setStepperNum_result [of True 5 fresh3] setStepperNum_result [of False 5 fresh3]
  by simp

section \<open>The frame transmitter\<close>

text \<open>
  C3 (amended). A count of 0, or one above the motor count, is replaced by the motor
  count: the call does what \<open>step(nSteppers)\<close> does. For a count \<open>len\<close> with
  \<open>0 < len < nSteppers\<close>, a call that returns has added one frame, made of the lookups
  for the motors \<open>len\<close> down to \<open>0\<close> in that order, one each: \<open>len + 1\<close> motors, not \<open>len\<close>.
  All of them are counters of the table, and where the counters are not negative each
  lookup is the phase byte \<open>cmd_list[counter mod driver_mode]\<close>.
\<close>

theorem step_serializes:
  fixes s :: "'a::len word driver"
  shows "(len = 0 \<or> nSteppers s < len \<longrightarrow> step E len s = step E (nSteppers s) s) \<and>
    (0 < len \<and> len < nSteppers s \<and> allocated s \<longrightarrow>
      (\<forall>s'. step E len s = Some s' \<longrightarrow>
         frames s' = frames s @ [map (shift_motor E (step_table s)) (rev [0..<Suc (unat len)])] \<and>
         frame_motors (last (frames s')) = rev [0..<Suc (unat len)] \<and>
         (\<forall>e \<in> set (last (frames s')). \<forall>j. e \<noteq> CounterOutOfBounds j) \<and>
         (header_ok E \<and> (\<forall>j \<le> unat len. 0 \<le> sint (step_table s ! j)) \<longrightarrow>
            last (frames s') =
              map (\<lambda>j. ShiftOut j (cmd_list E ! nat (sint (step_table s ! j) mod driver_mode E)))
                (rev [0..<Suc (unat len)]))))"
proof (intro conjI impI allI)
  assume "len = 0 \<or> nSteppers s < len"
  then show "step E len s = step E (nSteppers s) s"
    by (simp add: step_def active_length_def)
next
  fix s'
  assume a: "0 < len \<and> len < nSteppers s \<and> allocated s" and run: "step E len s = Some s'"
  then have al: "active_length s len = len" by (auto simp: active_length_def)
  from a have n: "Suc (unat len) \<le> length (step_table s)"
    by (simp add: allocated_def word_less_nat_alt)
  from step_frames(1) [OF run] al
  show fr: "frames s' = frames s @ [map (shift_motor E (step_table s)) (rev [0..<Suc (unat len)])]"
    by simp
  then have lf: "last (frames s') = map (shift_motor E (step_table s)) (rev [0..<Suc (unat len)])"
    by (simp only: last_snoc)
  then show "frame_motors (last (frames s')) = rev [0..<Suc (unat len)]"
    by (simp only: frame_motors_shift)
  show "\<forall>e \<in> set (last (frames s')). \<forall>j. e \<noteq> CounterOutOfBounds j"
  proof (intro ballI allI)
    fix e j assume "e \<in> set (last (frames s'))"
    then have "\<exists>i. i \<le> unat len \<and> e = shift_motor E (step_table s) i"
      unfolding lf by (auto simp del: upt_Suc simp: less_Suc_eq_le)
    then obtain i where "i \<le> unat len" and "e = shift_motor E (step_table s) i" by blast
    with n show "e \<noteq> CounterOutOfBounds j" by (simp add: shift_motor_allocated)
  qed
  assume h: "header_ok E \<and> (\<forall>j \<le> unat len. 0 \<le> sint (step_table s ! j))"
  have "map (shift_motor E (step_table s)) (rev [0..<Suc (unat len)]) =
        map (\<lambda>j. ShiftOut j (cmd_list E ! nat (sint (step_table s ! j) mod driver_mode E)))
          (rev [0..<Suc (unat len)])"
  proof (rule map_cong [OF refl])
    fix j assume "j \<in> set (rev [0..<Suc (unat len)])"
    then have "j \<le> unat len" by auto
    with h n show "shift_motor E (step_table s) j =
        ShiftOut j (cmd_list E ! nat (sint (step_table s ! j) mod driver_mode E))"
      by (intro shift_motor_byte) auto
  qed
  with lf show "last (frames s') =
      map (\<lambda>j. ShiftOut j (cmd_list E ! nat (sint (step_table s ! j) mod driver_mode E)))
        (rev [0..<Suc (unat len)])"
    by (simp only:)
qed

theorem step_serializes_witness:
  "step bench 0 fresh3 = step bench 3 fresh3 \<and>
   (0::16 word) < 1 \<and> 1 < nSteppers fresh3 \<and> allocated fresh3 \<and> header_ok bench \<and>
   0 \<le> sint (step_table fresh3 ! 0) \<and> 0 \<le> sint (step_table fresh3 ! 1) \<and>
   step bench 1 fresh3 =
     Some (fresh3\<lparr>last_step_time := 10000, micros_calls := 3,
                   frames := [ [ShiftOut 1 1, ShiftOut 0 1] ]\<rparr>) \<and>
   frame_motors [ShiftOut 1 1, ShiftOut 0 1] = [1, 0]"
proof -
  let ?s' = "fresh3\<lparr>last_step_time := 10000, micros_calls := 3,
                   frames := [ [ShiftOut 1 1, ShiftOut 0 1] ]\<rparr>"
  have a: "(0::16 word) < 1 \<and> 1 < nSteppers fresh3 \<and> allocated fresh3"
    by (simp add: fresh3_def allocated_def)
  have p: "0 \<le> sint (step_table fresh3 ! 0) \<and> 0 \<le> sint (step_table fresh3 ! 1)"
    by (simp add: fresh3_def)
  then have h: "header_ok bench \<and> (\<forall>j \<le> unat (1::16 word). 0 \<le> sint (step_table fresh3 ! j))"
    by (auto simp: header_ok_def bench_def le_Suc_eq)
  have d: "(0::16 word) = 0 \<or> nSteppers fresh3 < 0" by simp
  from step_serializes [of 0 fresh3 bench] d
  have "step bench 0 fresh3 = step bench (nSteppers fresh3) fresh3" by blast
  then have e: "step bench 0 fresh3 = step bench 3 fresh3" by (simp add: fresh3_def)
  from step_serializes [of 1 fresh3 bench] a h step_bench_1
  have "frame_motors (last (frames ?s')) = rev [0..<Suc (unat (1::16 word))]"
    by blast
  then have "frame_motors [ShiftOut 1 1, ShiftOut 0 1] = [1, 0]" by (simp add: upt_rec)
  with a h p e step_bench_1 show ?thesis by simp
qed

text \<open>
  C3 as the specification words it fails: \<open>step(1)\<close> on three motors shifts out motors 1 and 0, not motor 0
  alone.
\<close>

theorem step_active_count_counterexample:
  "map_option (map frame_motors \<circ> frames) (step bench 1 fresh3) = Some [ [1, 0] ] \<and>
   map_option (map frame_motors \<circ> frames) (step bench 1 fresh3)
     \<noteq> Some [rev [0..<unat (1::16 word)] ]"
  by (simp add: step_bench_1 frame_motors_def)

text \<open>
  C4. The specification has every read of \<open>step_table\<close> in \<open>step\<close> at an index below
  the motor count. The code reads one cell too far whenever the count it works with is the
  motor count: \<open>home()\<close> on a fresh driver of three motors calls \<open>step(0)\<close>, which reads
  \<open>step_table[3]\<close> before the cells 2, 1 and 0.
\<close>

theorem home_reads_past_table:
  "map_option frames (home bench fresh3) =
     Some [ [CounterOutOfBounds 3, ShiftOut 2 1, ShiftOut 1 1, ShiftOut 0 1] ]"
  by (simp add: run_eval split del: if_split)

text \<open>
  C5. The specification has the counter modulo the cycle length always be an index of
  the phase table. With a negative counter the remainder of \<open>%\<close> is negative:
  \<open>setStepperStep(1, -1)\<close> on a fresh driver leaves counter 1 at \<open>-1\<close> and looks up
  \<open>cmd_list[-1]\<close>.
\<close>

theorem negative_counter_phase:
  "map_option step_table (setStepperStep bench 1 (- 1) fresh3) = Some [0, - 1, 0] \<and>
   map_option frames (setStepperStep bench 1 (- 1) fresh3) =
     Some [ [PhaseOutOfBounds 1 (- 1), ShiftOut 0 1] ]"
  by (simp add: run_eval split del: if_split)

section \<open>The motion coordinator\<close>

text \<open>
  C1. The specification has every counter end at its old value plus its delta. \<open>zero_num\<close>
  is not reset between two passes, so the zeros of earlier passes count again: for the
  deltas \<open>[3, 0, 0]\<close> the loop stops after two passes, counter 0 has moved by 2, and a
  delta of 1 is left in the caller's array. What a call that returns does keep is the sum
  of each covered counter and its remaining delta (\<open>setStepperStep_list_conserves\<close>).
\<close>

theorem setStepperStep_list_stops_early:
  "map_option (step_table \<circ> snd) (setStepperStep_list bench [3, 0, 0] fresh3) = Some [2, 0, 0] \<and>
   map_option fst (setStepperStep_list bench [3, 0, 0] fresh3) = Some [1, 0, 0]"
  by (simp add: run_eval split del: if_split)

text \<open>
  C2. The specification has \<open>home()\<close> return with every counter at 0. It does return,
  below 65535 motors and with a clock that keeps advancing (\<open>home_returns\<close>), but for
  the same reason as in C1 it can stop early: from the counters \<open>[3, 0, 0]\<close> it returns
  with \<open>[1, 0, 0]\<close>.
\<close>

theorem home_stops_early:
  "map_option step_table (setStepperStep bench 0 3 fresh3) = Some [3, 0, 0] \<and>
   map_option step_table (Option.bind (setStepperStep bench 0 3 fresh3) (home bench)) = Some [1, 0, 0]"
  by (simp add: run_eval split del: if_split)

text \<open>
  C6 (amended). \<open>setStepperStep(step_list)\<close> sends one frame per pass of its loop, and
  a pass moves every covered delta that is not yet 0 one step towards 0: a call that
  returns having sent \<open>k\<close> frames leaves every covered delta \<open>d\<close> with its sign and the
  magnitude \<open>|d| - k\<close>, or at 0 where \<open>k\<close> exceeds \<open>|d|\<close>. It sends no frame when the list covers no motor
  and at least one otherwise; when every covered delta is 0 it is a single call
  \<open>step(0)\<close>: one frame, and no further pass. With a clock that keeps advancing and a
  motor count other than 65535 the call returns. With at most 32768 motors it sends at
  most one frame more than the largest magnitude \<open>m\<close> among the covered deltas, and exactly
  \<open>m + 1\<close> frames when the sum of \<open>m - |d|\<close> over the covered deltas is smaller than their
  number, as it is for a single motor or for deltas of one magnitude.
\<close>

theorem setStepperStep_list_frames:
  fixes s :: "'a::len word driver"
  shows "(list_length s D = 0 \<longrightarrow> setStepperStep_list E D s = Some (D, s)) \<and>
    (0 < list_length s D \<and> (\<forall>j < unat (list_length s D). D ! j = 0) \<longrightarrow>
       setStepperStep_list E D s = map_option (Pair D) (step E 0 s)) \<and>
    (ticking E (step_delay s) \<and> nSteppers s \<noteq> 65535 \<longrightarrow>
       (\<exists>D' s'. setStepperStep_list E D s = Some (D', s'))) \<and>
    (\<forall>D' s'. setStepperStep_list E D s = Some (D', s') \<longrightarrow>
       length (frames s) \<le> length (frames s') \<and>
       (0 < list_length s D \<longrightarrow> length (frames s) < length (frames s')) \<and>
       (\<forall>j < unat (list_length s D).
          sint (D' ! j) = sgn (sint (D ! j)) *
            int (nat \<bar>sint (D ! j)\<bar> - (length (frames s') - length (frames s)))) \<and>
       (nSteppers s \<le> 32768 \<longrightarrow>
          length (frames s') \<le>
            length (frames s) + max_delta (take (unat (list_length s D)) D) + 1) \<and>
       (nSteppers s \<le> 32768 \<and>
        (\<Sum>j<unat (list_length s D).
            max_delta (take (unat (list_length s D)) D) - nat \<bar>sint (D ! j)\<bar>)
          < unat (list_length s D) \<longrightarrow>
          length (frames s') =
            length (frames s) + max_delta (take (unat (list_length s D)) D) + 1))"
proof -
  let ?len = "list_length s D"
  have cov: "unat ?len \<le> length D" by (rule list_length_le)
  have none: "setStepperStep_list E D s = Some (D, s)" if "?len = 0"
    using that by (simp add: setStepperStep_list_def list_loop_done)
  have one: "setStepperStep_list E D s = map_option (Pair D) (step E 0 s)"
    if "0 < ?len \<and> (\<forall>j < unat ?len. D ! j = 0)"
    using that unfolding setStepperStep_list_def
    by (intro list_loop_all_zero) (simp_all add: list_length_le)
  have ret: "\<exists>D' s'. setStepperStep_list E D s = Some (D', s')"
    if "ticking E (step_delay s) \<and> nSteppers s \<noteq> 65535"
  proof -
    from that have "\<exists>r. setStepperStep_list E D s = Some r"
      by (intro setStepperStep_list_returns) simp_all
    then show ?thesis by auto
  qed
  have cnt: "length (frames s) \<le> length (frames s') \<and>
       (0 < ?len \<longrightarrow> length (frames s) < length (frames s')) \<and>
       (\<forall>j < unat ?len.
          sint (D' ! j) = sgn (sint (D ! j)) *
            int (nat \<bar>sint (D ! j)\<bar> - (length (frames s') - length (frames s)))) \<and>
       (nSteppers s \<le> 32768 \<longrightarrow>
          length (frames s') \<le> length (frames s) + max_delta (take (unat ?len) D) + 1) \<and>
       (nSteppers s \<le> 32768 \<and>
        (\<Sum>j<unat ?len. max_delta (take (unat ?len) D) - nat \<bar>sint (D ! j)\<bar>) < unat ?len \<longrightarrow>
          length (frames s') = length (frames s) + max_delta (take (unat ?len) D) + 1)"
    if run: "setStepperStep_list E D s = Some (D', s')" for D' s'
  proof -
    from run have r: "setStepperStep_list_loop E ?len 0 D s = Some (D', s')"
      by (simp add: setStepperStep_list_def)
    from list_loop_passes [OF r]
    have a: "length (frames s) \<le> length (frames s')"
      and b: "0 < ?len \<longrightarrow> length (frames s) < length (frames s')"
      and c: "\<forall>j < length D. j < unat ?len \<longrightarrow>
         sint (D' ! j) = sgn (sint (D ! j)) *
           int (nat \<bar>sint (D ! j)\<bar> - (length (frames s') - length (frames s)))"
      by blast+
    from c cov have c': "\<forall>j < unat ?len.
         sint (D' ! j) = sgn (sint (D ! j)) *
           int (nat \<bar>sint (D ! j)\<bar> - (length (frames s') - length (frames s)))"
      by (meson less_le_trans)
    have le: "unat ?len \<le> 32768" if "nSteppers s \<le> 32768"
      using list_length_le_motors [of s D] that by (simp add: word_le_nat_alt)
    have d: "length (frames s') \<le> length (frames s) + max_delta (take (unat ?len) D) + 1"
      if "nSteppers s \<le> 32768"
      by (rule list_loop_frames_bound [OF r cov le [OF that] order_refl])
    have e: "length (frames s') = length (frames s) + max_delta (take (unat ?len) D) + 1"
      if "nSteppers s \<le> 32768 \<and>
        (\<Sum>j<unat ?len. max_delta (take (unat ?len) D) - nat \<bar>sint (D ! j)\<bar>) < unat ?len"
    proof (rule list_loop_frames_exact [OF r cov _ refl])
      from that show "unat ?len \<le> 32768" by (simp add: le)
      from that show "unat (0::16 word) +
          (\<Sum>j<unat ?len. max_delta (take (unat ?len) D) - nat \<bar>sint (D ! j)\<bar>) < unat ?len"
        by simp
    qed
    from a b c' d e show ?thesis by blast
  qed
  from none one ret cnt show ?thesis by blast
qed

theorem setStepperStep_list_frames_witness:
  "list_length fresh3 [] = 0 \<and> setStepperStep_list bench [] fresh3 = Some ([], fresh3) \<and>
   list_length fresh3 [0, 0, 0] = 3 \<and>
   setStepperStep_list bench [0, 0, 0] fresh3 = map_option (Pair [0, 0, 0]) (step bench 0 fresh3) \<and>
   ticking bench (step_delay fresh3) \<and> nSteppers fresh3 \<noteq> 65535 \<and> nSteppers fresh3 \<le> 32768 \<and>
   list_length fresh3 [2, - 2] = 2 \<and> max_delta [2, - 2] = 2 \<and> length (frames fresh3) = 0 \<and>
   map_option (length \<circ> frames \<circ> snd) (setStepperStep_list bench [2, - 2] fresh3) = Some 3 \<and>
   map_option fst (setStepperStep_list bench [2, - 2] fresh3) = Some [0, 0]"
proof -
  have a: "list_length fresh3 [] = 0" by (simp add: list_length_def arrayLen_def fresh3_def)
  have l: "list_length fresh3 [0, 0, 0] = 3" by (simp add: list_length_def arrayLen_def fresh3_def)
  then have b: "0 < list_length fresh3 [0, 0, 0] \<and>
      (\<forall>j < unat (list_length fresh3 [0, 0, 0]). [0, 0, 0 :: 8 word] ! j = 0)"
    by (simp add: nth_Cons')
  have t: "ticking bench (step_delay fresh3)" using bench_ticking by (simp add: fresh3_def)
  have n: "nSteppers fresh3 \<noteq> 65535" "nSteppers fresh3 \<le> 32768" by (simp_all add: fresh3_def)
  have l2: "list_length fresh3 [2, - 2] = 2" by (simp add: list_length_def arrayLen_def fresh3_def)
  have m: "max_delta [2, - 2] = 2" by simp
  have f: "length (frames fresh3) = 0" by (simp add: fresh3_def)
  have z: "(\<Sum>j<unat (list_length fresh3 [2, - 2]).
        max_delta (take (unat (list_length fresh3 [2, - 2])) [2, - 2])
          - nat \<bar>sint ([2, - 2 :: 8 word] ! j)\<bar>) < unat (list_length fresh3 [2, - 2])"
  proof -
    have u: "unat (list_length fresh3 [2, - 2]) = 2" by (simp add: l2)
    have s: "{..<2::nat} = {0, 1}" by auto
    show ?thesis by (simp only: u s) simp
  qed
  from setStepperStep_list_frames [of fresh3 "[]" bench] a
  have 1: "setStepperStep_list bench [] fresh3 = Some ([], fresh3)" by blast
  from setStepperStep_list_frames [of fresh3 "[0, 0, 0]" bench] b
  have 2: "setStepperStep_list bench [0, 0, 0] fresh3 = map_option (Pair [0, 0, 0]) (step bench 0 fresh3)"
    by blast
  from setStepperStep_list_frames [of fresh3 "[2, - 2]" bench] t n(1)
  obtain D' s' where run: "setStepperStep_list bench [2, - 2] fresh3 = Some (D', s')" by blast
  from setStepperStep_list_frames [of fresh3 "[2, - 2]" bench] run n(2) z
  have "length (frames s') = length (frames fresh3) +
      max_delta (take (unat (list_length fresh3 [2, - 2])) [2, - 2]) + 1"
    by blast
  then have "length (frames s') = 3" by (simp add: l2 f)
  with run have 3: "map_option (length \<circ> frames \<circ> snd) (setStepperStep_list bench [2, - 2] fresh3) = Some 3"
    by simp
  from a l t n l2 m f 1 2 3 run_list_2 show ?thesis by (simp only: simp_thms)
qed

text \<open>
  C6 as the specification words it fails: for the single delta 1 the largest magnitude is 1, and two frames
  are sent.
\<close>

theorem setStepperStep_list_frames_counterexample:
  "map_option (length \<circ> frames \<circ> snd) (setStepperStep_list bench [1] fresh3) = Some 2 \<and>
   length (frames fresh3) = 0 \<and> max_delta [1] = 1"
  by (simp add: run_eval split del: if_split)

text \<open>
  C7 (amended). \<open>setStepperStep(step_list)\<close> works in the caller's array, not in a copy.
  When it returns the array has its length, the entries beyond the covered ones are as
  they were, every covered entry that was not 0 is nearer to 0 than it was, and the
  array is as it was exactly when every covered entry was 0.
\<close>

theorem setStepperStep_list_in_place:
  assumes "setStepperStep_list E D s = Some (D', s')"
  shows "length D' = length D \<and>
    (\<forall>j < length D. unat (list_length s D) \<le> j \<longrightarrow> D' ! j = D ! j) \<and>
    (\<forall>j < unat (list_length s D). D ! j \<noteq> 0 \<longrightarrow>
       nat \<bar>sint (D' ! j)\<bar> < nat \<bar>sint (D ! j)\<bar> \<and> D' ! j \<noteq> D ! j) \<and>
    (D' = D \<longleftrightarrow> (\<forall>j < unat (list_length s D). D ! j = 0))"
proof -
  let ?len = "list_length s D"
  from assms have run: "setStepperStep_list_loop E ?len 0 D s = Some (D', s')"
    by (simp add: setStepperStep_list_def)
  from list_loop_deltas [OF run]
  have l: "length D' = length D"
    and le: "\<And>j. j < length D \<Longrightarrow> nat \<bar>sint (D' ! j)\<bar> \<le> nat \<bar>sint (D ! j)\<bar>"
    and out: "\<And>j. j < length D \<Longrightarrow> unat ?len \<le> j \<Longrightarrow> D' ! j = D ! j"
    and strict: "0 < ?len \<Longrightarrow> (\<forall>j < length D. j < unat ?len \<longrightarrow> D ! j \<noteq> 0 \<longrightarrow>
       nat \<bar>sint (D' ! j)\<bar> < nat \<bar>sint (D ! j)\<bar>)"
    by simp_all
  have cov: "unat ?len \<le> length D" by (rule list_length_le)
  have moved: "nat \<bar>sint (D' ! j)\<bar> < nat \<bar>sint (D ! j)\<bar> \<and> D' ! j \<noteq> D ! j"
    if "j < unat ?len" "D ! j \<noteq> 0" for j
  proof -
    from that(1) have "0 < unat ?len" by simp
    then have "0 < ?len" by (simp add: word_less_nat_alt)
    from strict [OF this] that cov have "nat \<bar>sint (D' ! j)\<bar> < nat \<bar>sint (D ! j)\<bar>" by simp
    then show ?thesis by auto
  qed
  have "D' = D" if z: "\<forall>j < unat ?len. D ! j = 0"
  proof (rule nth_equalityI [OF l])
    fix j assume j: "j < length D'"
    show "D' ! j = D ! j"
    proof (cases "j < unat ?len")
      case True
      with z have "D ! j = 0" by simp
      with le [of j] j l have "sint (D' ! j) = 0" by simp
      then have "D' ! j = 0" by (simp add: signed_eq_0_iff)
      with \<open>D ! j = 0\<close> show ?thesis by simp
    next
      case False
      with out [of j] j l show ?thesis by simp
    qed
  qed
  moreover have "\<forall>j < unat ?len. D ! j = 0" if "D' = D"
    using moved that by blast
  ultimately show ?thesis using l out moved by blast
qed

theorem setStepperStep_list_in_place_witness:
  "map_option fst (setStepperStep_list bench [1] fresh3) = Some [0] \<and>
   length [0 :: 8 word] = length [1 :: 8 word] \<and> list_length fresh3 [1] = 1 \<and>
   [1 :: 8 word] ! 0 \<noteq> 0 \<and> [0] \<noteq> [1 :: 8 word]"
proof -
  from run_list_1 obtain s' where run: "setStepperStep_list bench [1] fresh3 = Some ([0], s')"
    by auto
  have l: "list_length fresh3 [1] = 1" by (simp add: list_length_def arrayLen_def fresh3_def)
  then have n: "\<not> (\<forall>j < unat (list_length fresh3 [1]). [1 :: 8 word] ! j = 0)" by simp
  from setStepperStep_list_in_place [OF run] n
  have "length [0 :: 8 word] = length [1 :: 8 word] \<and> [0] \<noteq> [1 :: 8 word]" by blast
  with run_list_1 l show ?thesis by simp
qed

text \<open>
  C7 as the specification words it fails: the caller's array \<open>[2, -1, 0]\<close> comes back as
  \<open>[0, 0, 0]\<close>.
\<close>

theorem setStepperStep_list_copy_counterexample:
  "map_option fst (setStepperStep_list bench [2, - 1, 0] fresh3) = Some [0, 0, 0] \<and>
   [0, 0, 0] \<noteq> [2, - 1, 0 :: 8 word]"
  by (simp add: run_eval split del: if_split)

text \<open>
  C8. The specification has \<open>setStepperStep(n, steps)\<close> return for every motor \<open>n\<close>
  below the motor count, with counter \<open>n\<close> moved by \<open>steps\<close>. With 65535 motors it does
  not return for motor 0: \<open>step(0)\<close> works with the count 65535, and no \<open>uint16_t\<close> index
  ends the loop \<open>i <= 65535\<close>. Below 65535 motors, and with a clock that keeps advancing,
  it returns with counter \<open>n\<close> moved by \<open>steps\<close> and the other counters as they were
  (\<open>setStepperStep_moves\<close>).
\<close>

theorem setStepperStep_never_returns:
  "(Hundred_Steppers bench True 65535 200 :: 8 word driver option) \<noteq> None \<and>
   Option.bind (Hundred_Steppers bench True 65535 200 :: 8 word driver option)
     (setStepperStep bench 0 1) = None"
proof -
  let ?s = "\<lparr>nSteppers = 65535, nSteps = 200, step_table = replicate 65535 (0 :: 8 word),
             last_step_time = 0, step_delay = 5000, micros_calls = 1, frames = []\<rparr>"
  have "(Hundred_Steppers bench True 65535 200 :: 8 word driver option) = Some ?s"
    by (simp add: bench_def Hundred_Steppers_def setSpeedRevPerMin_def calloc_def micros_def)
  moreover have "setStepperStep bench 0 1 ?s = None" by (rule setStepperStep_hangs) simp_all
  ultimately show ?thesis by simp
qed

end
